theory Spec2Isabelle
  imports Main "HOL-Library.Word"
begin

unbundle bit_operations_syntax

section \<open>Words, buffers and errors\<close>

text \<open>
  The package \<open>bitvector\<close> stores bit-vectors in a \<open>buf\<close>, a Go slice of 64-bit words.
  A slice has a visible part (its first \<open>len\<close> elements) and the rest of its backing array
  up to \<open>cap\<close>, which re-slicing can make visible again: \<open>elems\<close> is the visible part,
  \<open>spare\<close> the backing elements between \<open>len\<close> and \<open>cap\<close>.
  Go's \<open>int\<close> is modelled by \<open>int\<close>, with the wrap-around at 64 bits written out
  (\<open>wrap64\<close>) where the source multiplies or adds a value that no test has bounded.
  All divisions and remainders of the source have non-negative operands where they are
  reached, so Go's truncating \<open>/\<close> and \<open>%\<close> agree with \<open>div\<close> and \<open>mod\<close>.
\<close>

type_synonym word64 = "64 word"

record buf =
  elems :: "word64 list"
  spare :: "word64 list"

text \<open>
  The error values of the package are built by \<open>fmt.Errorf\<close>:
  \<open>"invalid Array index: n"\<close> is \<open>IndexOutOfRange n\<close>,
  \<open>"BitNum mismatch: a, b"\<close> is \<open>BitWidthMismatch a b\<close>,
  \<open>"invalid BitNum: b"\<close> is \<open>InvalidBitNum b\<close>,
  \<open>"unsupported format version of Array: v"\<close> is \<open>UnsupportedFormatVersion v\<close>.
  \<open>IOFailure\<close> is an error of the reader or of the decoder, and \<open>RuntimePanic\<close> is a
  run-time panic of Go (an index or a slice bound out of range), which is not a returned
  error: the call does not return.
\<close>

datatype error =
    IndexOutOfRange int
  | BitWidthMismatch int int
  | InvalidBitNum int
  | UnsupportedFormatVersion "8 word"
  | IOFailure
  | RuntimePanic

definition bindE :: "error + 'a \<Rightarrow> ('a \<Rightarrow> error + 'b) \<Rightarrow> error + 'b" where
  "bindE m f = (case m of Inl e \<Rightarrow> Inl e | Inr x \<Rightarrow> f x)"

definition wordBits :: int where
  "wordBits = 64"

definition nil_buf :: buf where
  "nil_buf = \<lparr>elems = [], spare = []\<rparr>"

text \<open>\<open>len(b)\<close> and \<open>cap(b)\<close> of a slice.\<close>

definition len_buf :: "buf \<Rightarrow> int" where
  "len_buf b = int (length (elems b))"

definition cap_buf :: "buf \<Rightarrow> int" where
  "cap_buf b = int (length (elems b)) + int (length (spare b))"

text \<open>\<open>make(buf, n)\<close> and \<open>make(buf, n, c)\<close>: zero-filled.\<close>

definition make_buf :: "int \<Rightarrow> buf" where
  "make_buf n = \<lparr>elems = replicate (nat n) 0, spare = []\<rparr>"


text \<open>\<open>xs[i]\<close>: a read out of range panics.\<close>

definition at :: "word64 list \<Rightarrow> int \<Rightarrow> error + word64" where
  "at xs i = (if 0 \<le> i \<and> i < int (length xs) then Inr (xs ! nat i) else Inl RuntimePanic)"

text \<open>\<open>xs[i] = w\<close>: a write out of range panics.\<close>

definition upd :: "word64 list \<Rightarrow> int \<Rightarrow> word64 \<Rightarrow> error + word64 list" where
  "upd xs i w = (if 0 \<le> i \<and> i < int (length xs) then Inr (xs[nat i := w]) else Inl RuntimePanic)"

text \<open>\<open>copy(dst, src)\<close> copies \<open>min(len(dst), len(src))\<close> elements; the result is the new \<open>dst\<close>.\<close>

definition copy :: "word64 list \<Rightarrow> word64 list \<Rightarrow> word64 list" where
  "copy dst src = take (length dst) src @ drop (length src) dst"

text \<open>
  \<open>b[lo:]\<close> needs \<open>0 \<le> lo \<le> len(b)\<close>; \<open>b[lo:hi]\<close> needs \<open>0 \<le> lo \<le> hi \<le> cap(b)\<close>, so it can
  reach into the spare part; \<open>b[:n]\<close> needs \<open>0 \<le> n \<le> cap(b)\<close>. Otherwise they panic.
  \<open>slice_from\<close> and \<open>slice_range\<close> give the visible elements of the new slice (the model
  writes back through \<open>copy_at\<close>), \<open>slice_to\<close> gives the re-sliced \<open>buf\<close>.
\<close>

definition slice_from :: "buf \<Rightarrow> int \<Rightarrow> error + word64 list" where
  "slice_from b lo =
     (if 0 \<le> lo \<and> lo \<le> len_buf b then Inr (drop (nat lo) (elems b)) else Inl RuntimePanic)"

definition slice_range :: "buf \<Rightarrow> int \<Rightarrow> int \<Rightarrow> error + word64 list" where
  "slice_range b lo hi =
     (if 0 \<le> lo \<and> lo \<le> hi \<and> hi \<le> cap_buf b
      then Inr (take (nat (hi - lo)) (drop (nat lo) (elems b @ spare b)))
      else Inl RuntimePanic)"




definition minInt :: "int \<Rightarrow> int \<Rightarrow> int" where
  "minInt a b = (if a < b then a else b)"

text \<open>
  The type \<open>int\<close> of Go has 64 bits here: a product or a sum that leaves
  \<open>[-2^63, 2^63)\<close> wraps around. \<open>wrap64\<close> is written where the source computes with a
  value that no test has bounded before; elsewhere the operands are lengths of slices or
  indices below them, and the result stays in the range.
\<close>

definition wrap64 :: "int \<Rightarrow> int" where
  "wrap64 x = (x + 2 ^ 63) mod 2 ^ 64 - 2 ^ 63"

text \<open>
  Shifts of a word by a count converted with \<open>uint(k)\<close>: a count of 64 or more gives 0, and
  so does a negative \<open>k\<close>, which \<open>uint\<close> turns into a count above \<open>2^63\<close>.
\<close>

definition shr :: "word64 \<Rightarrow> int \<Rightarrow> word64" where
  "shr w k = (if 0 \<le> k \<and> k < 64 then drop_bit (nat k) w else 0)"

definition shl :: "word64 \<Rightarrow> int \<Rightarrow> word64" where
  "shl w k = (if 0 \<le> k \<and> k < 64 then push_bit (nat k) w else 0)"

section \<open>Helpers of the package that array.go uses\<close>

text \<open>
  Modelled from the spec: \<open>nWords\<close>, \<open>leastBits\<close>, \<open>set\<close>, \<open>bitcount\<close>, \<open>bitcount16\<close>,
  \<open>bitcount32\<close>, the type \<open>Vector\<close> with \<open>NewVector\<close> and \<open>Vector.Set\<close>, and the
  package-level function \<open>HammingDistance\<close> are declared in a file of the package that is
  not among the sources. The spec gives: a bit-vector of width \<open>bitNum\<close> is backed by
  \<open>ceil(bitNum/64)\<close> words and an array of \<open>len\<close> elements by \<open>ceil(bitNum*len/64)\<close> words;
  masks and shifts select the low bits of a word; the distance is the population count of
  the exclusive or.
\<close>

text \<open>Modelled from the spec: \<open>nWords(bitNum, n)\<close>, the words that hold \<open>n\<close> elements of \<open>bitNum\<close> bits.\<close>

definition nWords :: "int \<Rightarrow> int \<Rightarrow> int" where
  "nWords bitNum n = (bitNum * n + wordBits - 1) div wordBits"

text \<open>Modelled from the spec: \<open>leastBits(n)\<close>, the word whose \<open>n\<close> low bits are set.\<close>

definition leastBits :: "int \<Rightarrow> word64" where
  "leastBits n = mask (nat n)"

text \<open>
  Modelled from the spec: \<open>set(&w, offset, x, nbits)\<close> overwrites the \<open>nbits\<close> bits of \<open>w\<close>
  that start at bit \<open>offset\<close> with the \<open>nbits\<close> low bits of \<open>x\<close>; the model returns the new word.
\<close>

definition set_bits :: "word64 \<Rightarrow> int \<Rightarrow> word64 \<Rightarrow> int \<Rightarrow> word64" where
  "set_bits w offset x nbits =
     (w AND NOT (shl (leastBits nbits) offset)) OR shl (x AND leastBits nbits) offset"

text \<open>Modelled from the spec: \<open>bitcount\<close>, \<open>bitcount16\<close>, \<open>bitcount32\<close>, the population count.\<close>

definition popcount :: "'a::len word \<Rightarrow> int" where
  "popcount w = int (length (filter (bit w) [0..<LENGTH('a)]))"

definition bitcount :: "word64 \<Rightarrow> int" where
  "bitcount w = popcount w"

definition bitcount16 :: "16 word \<Rightarrow> int" where
  "bitcount16 w = popcount w"

definition bitcount32 :: "32 word \<Rightarrow> int" where
  "bitcount32 w = popcount w"

text \<open>
  A \<open>Vector\<close> holds its words and its width. A value of the model is the content of the
  vector at the time of the call; the sharing of storage between a returned vector and the
  array is not modelled.
\<close>

record Vector =
  v_data :: "word64 list"
  v_bitNum :: int

text \<open>Modelled from the spec: \<open>NewVector(bitNum)\<close>, zero-filled; \<open>nil\<close> when \<open>bitNum \<le> 0\<close>.\<close>

definition NewVector :: "int \<Rightarrow> Vector option" where
  "NewVector bitNum =
     (if bitNum \<le> 0 then None
      else Some \<lparr>v_data = replicate (nat (nWords bitNum 1)) 0, v_bitNum = bitNum\<rparr>)"

section \<open>The five specializations and their selection\<close>

record generalArray =
  ga_data :: buf
  ga_bitNum :: int
  ga_len :: int

record smallBitsArray =
  ga :: generalArray

record wordArray =
  wa_data :: buf

record smallPowerOfTwoBitsArray =
  p2_data :: buf
  p2_bitNum :: int
  p2_len :: int

record multipleOfWordBitsArray =
  mw_data :: buf
  mw_bitNum :: int

datatype Array =
    General generalArray
  | SmallBits smallBitsArray
  | WordArr wordArray
  | SmallPowerOfTwo smallPowerOfTwoBitsArray
  | MultipleOfWord multipleOfWordBitsArray

text \<open>
  \<open>createArray\<close>: \<open>None\<close> is the \<open>nil\<close> it returns. In Go the binary operator \<open>^\<close> is the
  bitwise exclusive or, so the test under the comment \<open>// 2^n\<close> is
  \<open>bitNum XOR (bitNum - 1) == 0\<close>.
\<close>

definition createArray :: "buf \<Rightarrow> int \<Rightarrow> int \<Rightarrow> Array option" where
  "createArray dat bitNum n =
     (if bitNum \<le> 0 \<or> n < 0 then None
      else if bitNum < wordBits then
        (if bitNum XOR (bitNum - 1) = 0
         then Some (SmallPowerOfTwo \<lparr>p2_data = dat, p2_bitNum = bitNum, p2_len = n\<rparr>)
         else Some (SmallBits \<lparr>ga = \<lparr>ga_data = dat, ga_bitNum = bitNum, ga_len = n\<rparr>\<rparr>))
      else if bitNum = wordBits then Some (WordArr \<lparr>wa_data = dat\<rparr>)
      else if bitNum mod wordBits = 0
        then Some (MultipleOfWord \<lparr>mw_data = dat, mw_bitNum = bitNum\<rparr>)
      else Some (General \<lparr>ga_data = dat, ga_bitNum = bitNum, ga_len = n\<rparr>))"

definition NewArray :: "int \<Rightarrow> Array option" where
  "NewArray bitNum = createArray nil_buf bitNum 0"

definition is_SmallPowerOfTwo :: "Array \<Rightarrow> bool" where
  "is_SmallPowerOfTwo a = (case a of SmallPowerOfTwo _ \<Rightarrow> True | _ \<Rightarrow> False)"

section \<open>Writing into a word of a slice\<close>

text \<open>
  \<open>set(&xs[i], offset, x, nbits)\<close> on a list of words, and on the visible part of a \<open>buf\<close>.
\<close>

definition set_in :: "word64 list \<Rightarrow> int \<Rightarrow> int \<Rightarrow> word64 \<Rightarrow> int \<Rightarrow> error + word64 list" where
  "set_in xs i offset x nbits = bindE (at xs i) (\<lambda>w. upd xs i (set_bits w offset x nbits))"





section \<open>generalArray\<close>




definition generalArray_Len :: "generalArray \<Rightarrow> int" where
  "generalArray_Len a = ga_len a"

definition generalArray_BitNum :: "generalArray \<Rightarrow> int" where
  "generalArray_BitNum a = ga_bitNum a"

text \<open>
  \<open>Get\<close>, first case: the bit-vector is stored in one word. The shift count
  \<open>word(lbit) % wordBits\<close> is \<open>lbit mod 64\<close>, as \<open>lbit\<close> is not negative here.
\<close>

definition generalArray_Get_inWord :: "generalArray \<Rightarrow> int \<Rightarrow> int \<Rightarrow> error + Vector" where
  "generalArray_Get_inWord a lbit l =
     (let msk = leastBits (ga_bitNum a);
          shift = lbit mod wordBits
      in bindE (at (elems (ga_data a)) l) (\<lambda>w.
           Inr \<lparr>v_data = [shr w shift AND msk], v_bitNum = ga_bitNum a\<rparr>))"

text \<open>\<open>Get\<close>, second case: the bit-vector starts from the least bit of a word.\<close>

definition generalArray_Get_aligned :: "generalArray \<Rightarrow> int \<Rightarrow> int \<Rightarrow> error + Vector" where
  "generalArray_Get_aligned a rbit l =
     (let retLen = nWords (ga_bitNum a) 1;
          retBuf = elems (make_buf retLen)
      in bindE (slice_from (ga_data a) l) (\<lambda>src.
           let retBuf = copy retBuf src;
               nTrailingBits = rbit mod wordBits
           in bindE (if nTrailingBits \<noteq> 0
                     then bindE (at retBuf (retLen - 1)) (\<lambda>w.
                            upd retBuf (retLen - 1) (w AND leastBits nTrailingBits))
                     else Inr retBuf) (\<lambda>retBuf.
                Inr \<lparr>v_data = retBuf, v_bitNum = ga_bitNum a\<rparr>)))"

text \<open>\<open>Get\<close>, third case: the bit-vector starts inside a word and ends in a later one.\<close>

definition generalArray_Get_spliced ::
  "generalArray \<Rightarrow> int \<Rightarrow> int \<Rightarrow> int \<Rightarrow> int \<Rightarrow> error + Vector" where
  "generalArray_Get_spliced a lbit rbit l r =
     (let retLen = nWords (ga_bitNum a) 1;
          retBuf = elems (make_buf retLen);
          leftOffset = lbit mod wordBits;
          nLeftBits = wordBits - leftOffset
      in bindE (at (elems (ga_data a)) l) (\<lambda>dl.
           let leftBits = shr dl leftOffset;
               nRightBits = rbit mod wordBits;
               nTrailingBits = ga_bitNum a mod wordBits
           in bindE (slice_range (ga_data a) (l + 1) r) (\<lambda>src.
                let retBuf = copy retBuf src
                in bindE
                     (if nRightBits = 0 then upd retBuf (retLen - 1) leftBits
                      else if nLeftBits + nRightBits \<le> wordBits then
                        bindE (at (elems (ga_data a)) r) (\<lambda>dr.
                        bindE (set_in retBuf (retLen - 1) 0 dr nRightBits) (\<lambda>retBuf.
                          set_in retBuf (retLen - 1) nRightBits leftBits nLeftBits))
                      else
                        bindE (at (elems (ga_data a)) r) (\<lambda>dr.
                        bindE (set_in retBuf (retLen - 2) 0 dr nRightBits) (\<lambda>retBuf.
                        bindE (set_in retBuf (retLen - 2) nRightBits leftBits
                                 (wordBits - nRightBits)) (\<lambda>retBuf.
                          set_in retBuf (retLen - 1) 0
                            (shr leftBits (wordBits - nRightBits)) nTrailingBits))))
                     (\<lambda>retBuf. Inr \<lparr>v_data = retBuf, v_bitNum = ga_bitNum a\<rparr>))))"

definition generalArray_Get :: "generalArray \<Rightarrow> int \<Rightarrow> error + Vector" where
  "generalArray_Get a n =
     (if n < 0 \<or> n \<ge> ga_len a then Inl (IndexOutOfRange n)
      else
        let lbit = n * ga_bitNum a;
            rbit = lbit + ga_bitNum a;
            l = lbit div wordBits;
            r = rbit div wordBits
        in if l = r \<or> (l + 1 = r \<and> rbit mod wordBits = 0) then generalArray_Get_inWord a lbit l
           else if lbit mod wordBits = 0 then generalArray_Get_aligned a rbit l
           else generalArray_Get_spliced a lbit rbit l r)"




section \<open>smallBitsArray\<close>


definition smallBitsArray_Len :: "smallBitsArray \<Rightarrow> int" where
  "smallBitsArray_Len a = generalArray_Len (ga a)"

definition smallBitsArray_BitNum :: "smallBitsArray \<Rightarrow> int" where
  "smallBitsArray_BitNum a = generalArray_BitNum (ga a)"

definition smallBitsArray_HammingDistance :: "smallBitsArray \<Rightarrow> int \<Rightarrow> Vector \<Rightarrow> error + int" where
  "smallBitsArray_HammingDistance a n v =
     (if smallBitsArray_BitNum a \<noteq> v_bitNum v
        then Inl (BitWidthMismatch (smallBitsArray_BitNum a) (v_bitNum v))
      else if n < 0 \<or> n \<ge> smallBitsArray_Len a then Inl (IndexOutOfRange n)
      else
        let lbit = n * smallBitsArray_BitNum a;
            rbit = lbit + smallBitsArray_BitNum a;
            l = lbit div wordBits;
            r = rbit div wordBits;
            nRightBits = rbit mod wordBits;
            loffset = lbit mod wordBits
        in bindE
             (if l = r \<or> nRightBits = 0 then
                bindE (at (elems (ga_data (ga a))) l) (\<lambda>dl.
                  Inr (shr dl loffset AND leastBits (smallBitsArray_BitNum a)))
              else
                bindE (at (elems (ga_data (ga a))) r) (\<lambda>dr.
                bindE (at (elems (ga_data (ga a))) l) (\<lambda>dl.
                  Inr ((dr AND leastBits nRightBits) OR shl (shr dl loffset) nRightBits))))
             (\<lambda>x. bindE (at (v_data v) 0) (\<lambda>y. Inr (bitcount (x XOR y)))))"

definition smallBitsArray_get :: "smallBitsArray \<Rightarrow> int \<Rightarrow> error + word64" where
  "smallBitsArray_get a n =
     (if n < 0 \<or> n \<ge> smallBitsArray_Len a then Inl (IndexOutOfRange n)
      else
        let lbit = n * smallBitsArray_BitNum a;
            rbit = lbit + smallBitsArray_BitNum a;
            l = lbit div wordBits;
            r = rbit div wordBits;
            nRightBits = rbit mod wordBits;
            loffset = lbit mod wordBits
        in if l = r \<or> nRightBits = 0 then
             bindE (at (elems (ga_data (ga a))) l) (\<lambda>dl.
               Inr (shr dl loffset AND leastBits (smallBitsArray_BitNum a)))
           else
             bindE (at (elems (ga_data (ga a))) r) (\<lambda>dr.
             bindE (at (elems (ga_data (ga a))) l) (\<lambda>dl.
               Inr ((dr AND leastBits nRightBits) OR shl (shr dl loffset) nRightBits))))"

text \<open>\<open>v := NewVector(bitNum); v.data[0] = x\<close>: a \<open>nil\<close> vector panics.\<close>

definition vector_of_word :: "int \<Rightarrow> word64 \<Rightarrow> error + Vector" where
  "vector_of_word bitNum x =
     (case NewVector bitNum of
        None \<Rightarrow> Inl RuntimePanic
      | Some v \<Rightarrow> bindE (upd (v_data v) 0 x) (\<lambda>d. Inr (v\<lparr>v_data := d\<rparr>)))"

definition smallBitsArray_Get :: "smallBitsArray \<Rightarrow> int \<Rightarrow> error + Vector" where
  "smallBitsArray_Get a n =
     bindE (smallBitsArray_get a n) (\<lambda>x. vector_of_word (ga_bitNum (ga a)) x)"


section \<open>wordArray\<close>


definition wordArray_Len :: "wordArray \<Rightarrow> int" where
  "wordArray_Len a = len_buf (wa_data a)"

definition wordArray_BitNum :: "wordArray \<Rightarrow> int" where
  "wordArray_BitNum a = wordBits"

definition wordArray_HammingDistance :: "wordArray \<Rightarrow> int \<Rightarrow> Vector \<Rightarrow> error + int" where
  "wordArray_HammingDistance a n v =
     (if v_bitNum v \<noteq> wordBits then Inl (BitWidthMismatch wordBits (v_bitNum v))
      else if n < 0 \<or> n \<ge> wordArray_Len a then Inl (IndexOutOfRange n)
      else bindE (at (elems (wa_data a)) n) (\<lambda>x.
           bindE (at (v_data v) 0) (\<lambda>y. Inr (bitcount (x XOR y)))))"

definition wordArray_Get :: "wordArray \<Rightarrow> int \<Rightarrow> error + Vector" where
  "wordArray_Get a n =
     (if n < 0 \<or> n \<ge> wordArray_Len a then Inl (IndexOutOfRange n)
      else bindE (slice_range (wa_data a) n (n + 1)) (\<lambda>d.
             Inr \<lparr>v_data = d, v_bitNum = wordBits\<rparr>))"


section \<open>smallPowerOfTwoBitsArray\<close>


definition smallPowerOfTwoBitsArray_Len :: "smallPowerOfTwoBitsArray \<Rightarrow> int" where
  "smallPowerOfTwoBitsArray_Len a = p2_len a"

definition smallPowerOfTwoBitsArray_BitNum :: "smallPowerOfTwoBitsArray \<Rightarrow> int" where
  "smallPowerOfTwoBitsArray_BitNum a = p2_bitNum a"

text \<open>
  The conversion \<open>int(w)\<close> of a \<open>uint64\<close> reads the bits as a signed value, \<open>uint16(w)\<close> and
  \<open>uint32(w)\<close> keep the low bits.
\<close>

definition smallPowerOfTwoBitsArray_HammingDistance ::
  "smallPowerOfTwoBitsArray \<Rightarrow> int \<Rightarrow> Vector \<Rightarrow> error + int" where
  "smallPowerOfTwoBitsArray_HammingDistance a n v =
     (if p2_bitNum a \<noteq> v_bitNum v then Inl (BitWidthMismatch (p2_bitNum a) (v_bitNum v))
      else if n < 0 \<or> n \<ge> smallPowerOfTwoBitsArray_Len a then Inl (IndexOutOfRange n)
      else if p2_bitNum a = 1 then
        bindE (at (elems (p2_data a)) (n div 64)) (\<lambda>full.
          let part = shr full (n mod 64) AND 1
          in bindE (at (v_data v) 0) (\<lambda>y. Inr (sint (part XOR y))))
      else if p2_bitNum a = 2 then
        bindE (at (elems (p2_data a)) (n div 32)) (\<lambda>full.
          let part = shr full (2 * (n mod 32)) AND 3
          in bindE (at (v_data v) 0) (\<lambda>y. Inr (bitcount16 (ucast (part XOR y)))))
      else if p2_bitNum a = 4 then
        bindE (at (elems (p2_data a)) (n div 16)) (\<lambda>full.
          let part = shr full (4 * (n mod 16)) AND 0xF
          in bindE (at (v_data v) 0) (\<lambda>y. Inr (bitcount16 (ucast (part XOR y)))))
      else if p2_bitNum a = 8 then
        bindE (at (elems (p2_data a)) (n div 8)) (\<lambda>full.
          let part = shr full (8 * (n mod 8)) AND 0xFF
          in bindE (at (v_data v) 0) (\<lambda>y. Inr (bitcount16 (ucast (part XOR y)))))
      else if p2_bitNum a = 16 then
        bindE (at (elems (p2_data a)) (n div 4)) (\<lambda>full.
          let part = (ucast (shr full (16 * (n mod 4))) :: 16 word)
          in bindE (at (v_data v) 0) (\<lambda>y. Inr (bitcount16 (part XOR ucast y))))
      else if p2_bitNum a = 32 then
        bindE (at (elems (p2_data a)) (n div 2)) (\<lambda>full.
          let part = (ucast (shr full (32 * (n mod 2))) :: 32 word)
          in bindE (at (v_data v) 0) (\<lambda>y. Inr (bitcount32 (part XOR ucast y))))
      else Inl (InvalidBitNum (p2_bitNum a)))"

text \<open>\<open>get\<close>: an integer division by zero panics.\<close>

definition smallPowerOfTwoBitsArray_get :: "smallPowerOfTwoBitsArray \<Rightarrow> int \<Rightarrow> error + word64" where
  "smallPowerOfTwoBitsArray_get a n =
     (if p2_bitNum a = 0 then Inl RuntimePanic
      else
        let nelems = wordBits div p2_bitNum a;
            msk = leastBits (p2_bitNum a)
        in if nelems = 0 then Inl RuntimePanic
           else bindE (at (elems (p2_data a)) (n div nelems)) (\<lambda>w.
                  Inr (shr w (n mod nelems * p2_bitNum a) AND msk)))"

definition smallPowerOfTwoBitsArray_Get :: "smallPowerOfTwoBitsArray \<Rightarrow> int \<Rightarrow> error + Vector" where
  "smallPowerOfTwoBitsArray_Get a n =
     (if n < 0 \<or> n \<ge> smallPowerOfTwoBitsArray_Len a then Inl (IndexOutOfRange n)
      else bindE (smallPowerOfTwoBitsArray_get a n) (\<lambda>x. vector_of_word (p2_bitNum a) x))"


section \<open>multipleOfWordBitsArray\<close>


text \<open>
  \<open>Len\<close> divides by \<open>bitNum / wordBits\<close>, which is at least 2 in every array that
  \<open>createArray\<close> builds.
\<close>

definition multipleOfWordBitsArray_Len :: "multipleOfWordBitsArray \<Rightarrow> int" where
  "multipleOfWordBitsArray_Len a = len_buf (mw_data a) div (mw_bitNum a div wordBits)"

definition multipleOfWordBitsArray_BitNum :: "multipleOfWordBitsArray \<Rightarrow> int" where
  "multipleOfWordBitsArray_BitNum a = mw_bitNum a"

text \<open>
  The loop \<open>for i := 0; i < nw; i++ { ret += bitcount(a.data[n*nw+i] ^ v.data[i]) }\<close>,
  with \<open>k\<close> the number of rounds left and \<open>base\<close> the product \<open>n*nw\<close>. No test bounds
  \<open>n\<close> from above, so the product and the sum \<open>n*nw+i\<close> wrap around.
\<close>

fun multipleOfWordBitsArray_sum ::
  "word64 list \<Rightarrow> word64 list \<Rightarrow> int \<Rightarrow> int \<Rightarrow> nat \<Rightarrow> int \<Rightarrow> error + int" where
  "multipleOfWordBitsArray_sum d vd base i 0 ret = Inr ret"
| "multipleOfWordBitsArray_sum d vd base i (Suc k) ret =
     bindE (at d (wrap64 (base + i))) (\<lambda>x.
     bindE (at vd i) (\<lambda>y.
       multipleOfWordBitsArray_sum d vd base (i + 1) k (ret + bitcount (x XOR y))))"

text \<open>The source omits the test \<open>n >= a.Len()\<close> here, "because a.Len() is slow".\<close>

definition multipleOfWordBitsArray_HammingDistance ::
  "multipleOfWordBitsArray \<Rightarrow> int \<Rightarrow> Vector \<Rightarrow> error + int" where
  "multipleOfWordBitsArray_HammingDistance a n v =
     (if mw_bitNum a \<noteq> v_bitNum v then Inl (BitWidthMismatch (mw_bitNum a) (v_bitNum v))
      else if n < 0 then Inl (IndexOutOfRange n)
      else
        let nw = mw_bitNum a div wordBits
        in multipleOfWordBitsArray_sum (elems (mw_data a)) (v_data v) (wrap64 (n * nw)) 0 (nat nw) 0)"

definition multipleOfWordBitsArray_Get :: "multipleOfWordBitsArray \<Rightarrow> int \<Rightarrow> error + Vector" where
  "multipleOfWordBitsArray_Get a n =
     (if n < 0 \<or> n \<ge> multipleOfWordBitsArray_Len a then Inl (IndexOutOfRange n)
      else
        (case NewVector (mw_bitNum a) of
           None \<Rightarrow> Inl RuntimePanic
         | Some v \<Rightarrow>
             let nw = mw_bitNum a div wordBits
             in bindE (slice_from (mw_data a) (n * nw)) (\<lambda>src.
                  Inr (v\<lparr>v_data := copy (v_data v) src\<rparr>))))"


section \<open>The package-level distance and the interface\<close>

text \<open>
  Modelled from the spec: the package-level \<open>HammingDistance(a, n, v)\<close>, which
  \<open>generalArray.HammingDistance\<close> calls, is not among the sources. The spec: it fails with
  BitWidthMismatch if the widths differ, with IndexOutOfRange if \<open>n\<close> is not in
  \<open>[0, len)\<close>, and else returns the population count of \<open>get(n) XOR v\<close>.
\<close>

definition xor_popcount :: "word64 list \<Rightarrow> word64 list \<Rightarrow> int" where
  "xor_popcount xs ys = sum_list (map (\<lambda>(x, y). bitcount (x XOR y)) (zip xs ys))"

definition HammingDistance :: "generalArray \<Rightarrow> int \<Rightarrow> Vector \<Rightarrow> error + int" where
  "HammingDistance a n v =
     (if ga_bitNum a \<noteq> v_bitNum v then Inl (BitWidthMismatch (ga_bitNum a) (v_bitNum v))
      else bindE (generalArray_Get a n) (\<lambda>x. Inr (xor_popcount (v_data x) (v_data v))))"

definition generalArray_HammingDistance :: "generalArray \<Rightarrow> int \<Rightarrow> Vector \<Rightarrow> error + int" where
  "generalArray_HammingDistance a n v = HammingDistance a n v"


definition Array_Len :: "Array \<Rightarrow> int" where
  "Array_Len a =
     (case a of
        General g \<Rightarrow> generalArray_Len g
      | SmallBits s \<Rightarrow> smallBitsArray_Len s
      | WordArr w \<Rightarrow> wordArray_Len w
      | SmallPowerOfTwo p \<Rightarrow> smallPowerOfTwoBitsArray_Len p
      | MultipleOfWord m \<Rightarrow> multipleOfWordBitsArray_Len m)"

definition Array_BitNum :: "Array \<Rightarrow> int" where
  "Array_BitNum a =
     (case a of
        General g \<Rightarrow> generalArray_BitNum g
      | SmallBits s \<Rightarrow> smallBitsArray_BitNum s
      | WordArr w \<Rightarrow> wordArray_BitNum w
      | SmallPowerOfTwo p \<Rightarrow> smallPowerOfTwoBitsArray_BitNum p
      | MultipleOfWord m \<Rightarrow> multipleOfWordBitsArray_BitNum m)"

definition Array_HammingDistance :: "Array \<Rightarrow> int \<Rightarrow> Vector \<Rightarrow> error + int" where
  "Array_HammingDistance a n v =
     (case a of
        General g \<Rightarrow> generalArray_HammingDistance g n v
      | SmallBits s \<Rightarrow> smallBitsArray_HammingDistance s n v
      | WordArr w \<Rightarrow> wordArray_HammingDistance w n v
      | SmallPowerOfTwo p \<Rightarrow> smallPowerOfTwoBitsArray_HammingDistance p n v
      | MultipleOfWord m \<Rightarrow> multipleOfWordBitsArray_HammingDistance m n v)"

definition Array_Get :: "Array \<Rightarrow> int \<Rightarrow> error + Vector" where
  "Array_Get a n =
     (case a of
        General g \<Rightarrow> generalArray_Get g n
      | SmallBits s \<Rightarrow> smallBitsArray_Get s n
      | WordArr w \<Rightarrow> wordArray_Get w n
      | SmallPowerOfTwo p \<Rightarrow> smallPowerOfTwoBitsArray_Get p n
      | MultipleOfWord m \<Rightarrow> multipleOfWordBitsArray_Get m n)"


section \<open>Serialization\<close>

text \<open>
  The record that \<open>Save\<close> encodes. The msgpack codec is a library outside the repository:
  the encoder and the decoder are parameters of the model. A decoder reads a record from
  the front of the bytes and leaves the rest. The writer is a byte sequence that the model
  returns; write errors are not modelled.
\<close>

record arrayData =
  Data :: buf
  BitNum :: int
  Len :: int

type_synonym byte = "8 word"

type_synonym 'a encoder = "'a \<Rightarrow> byte list"

type_synonym 'a decoder = "byte list \<Rightarrow> ('a \<times> byte list) option"

definition arrayFormatVersion :: byte where
  "arrayFormatVersion = 1"

definition generalArray_Save :: "arrayData encoder \<Rightarrow> generalArray \<Rightarrow> byte list" where
  "generalArray_Save enc a =
     arrayFormatVersion # enc \<lparr>Data = ga_data a, BitNum = ga_bitNum a, Len = ga_len a\<rparr>"

text \<open>The \<open>generalArray\<close> that each \<open>Save\<close> builds from its receiver.\<close>

definition Save_view :: "Array \<Rightarrow> generalArray" where
  "Save_view a =
     (case a of
        General g \<Rightarrow> g
      | SmallBits s \<Rightarrow> ga s
      | WordArr w \<Rightarrow>
          \<lparr>ga_data = wa_data w, ga_bitNum = wordBits, ga_len = len_buf (wa_data w)\<rparr>
      | SmallPowerOfTwo p \<Rightarrow>
          \<lparr>ga_data = p2_data p, ga_bitNum = p2_bitNum p, ga_len = p2_len p\<rparr>
      | MultipleOfWord m \<Rightarrow>
          \<lparr>ga_data = mw_data m, ga_bitNum = mw_bitNum m,
           ga_len = multipleOfWordBitsArray_Len m\<rparr>)"

definition Array_Save :: "arrayData encoder \<Rightarrow> Array \<Rightarrow> byte list" where
  "Array_Save enc a = generalArray_Save enc (Save_view a)"

definition loadArrayFormatV1 :: "arrayData decoder \<Rightarrow> byte list \<Rightarrow> error + Array option" where
  "loadArrayFormatV1 dec r =
     (case dec r of
        None \<Rightarrow> Inl IOFailure
      | Some (d, _) \<Rightarrow> Inr (createArray (Data d) (BitNum d) (Len d)))"

definition LoadArray :: "arrayData decoder \<Rightarrow> byte list \<Rightarrow> error + Array option" where
  "LoadArray dec r =
     (case r of
        [] \<Rightarrow> Inl IOFailure
      | formatVersion # rest \<Rightarrow>
          if formatVersion = 1 then loadArrayFormatV1 dec rest
          else Inl (UnsupportedFormatVersion formatVersion))"

section \<open>Well-formed vectors and arrays\<close>

text \<open>
  A vector built by \<open>NewVector\<close> and \<open>Vector.Set\<close> has \<open>ceil(bitNum/64)\<close> words and no bit
  set at or above its width.
\<close>

definition valid_Vector :: "Vector \<Rightarrow> bool" where
  "valid_Vector v =
     (0 < v_bitNum v \<and> int (length (v_data v)) = nWords (v_bitNum v) 1 \<and>
      (v_bitNum v mod wordBits \<noteq> 0 \<longrightarrow>
         last (v_data v) AND NOT (leastBits (v_bitNum v mod wordBits)) = 0))"

text \<open>
  The arrays that the package builds: the width of each specialization is in the range
  that the selection table of the spec gives it, the length is not negative, and the
  buffer holds at least \<open>ceil(bitNum*len/64)\<close> words (the capacity invariant of the spec).
  A multi-word-aligned array holds whole elements only, and the length of its slice is an
  \<open>int\<close> of Go, below \<open>2^63\<close>.
\<close>

definition valid_Array :: "Array \<Rightarrow> bool" where
  "valid_Array a =
     (case a of
        General g \<Rightarrow>
          wordBits < ga_bitNum g \<and> ga_bitNum g mod wordBits \<noteq> 0 \<and> 0 \<le> ga_len g \<and>
          nWords (ga_bitNum g) (ga_len g) \<le> len_buf (ga_data g)
      | SmallBits s \<Rightarrow>
          0 < ga_bitNum (ga s) \<and> ga_bitNum (ga s) < wordBits \<and> 0 \<le> ga_len (ga s) \<and>
          nWords (ga_bitNum (ga s)) (ga_len (ga s)) \<le> len_buf (ga_data (ga s))
      | WordArr w \<Rightarrow> True
      | SmallPowerOfTwo p \<Rightarrow>
          p2_bitNum p \<in> {1, 2, 4, 8, 16, 32} \<and> 0 \<le> p2_len p \<and>
          nWords (p2_bitNum p) (p2_len p) \<le> len_buf (p2_data p)
      | MultipleOfWord m \<Rightarrow>
          wordBits < mw_bitNum m \<and> mw_bitNum m mod wordBits = 0 \<and>
          len_buf (mw_data m) mod (mw_bitNum m div wordBits) = 0 \<and>
          len_buf (mw_data m) < 2 ^ 63)"

definition is_MultipleOfWord :: "Array \<Rightarrow> bool" where
  "is_MultipleOfWord a = (case a of MultipleOfWord _ \<Rightarrow> True | _ \<Rightarrow> False)"


text \<open>
  What a decoder has to give back for a record: the same words, width and length. The
  capacity of the slice it allocates is its own choice.
\<close>

definition same_record :: "arrayData \<Rightarrow> arrayData \<Rightarrow> bool" where
  "same_record r r' =
     (elems (Data r') = elems (Data r) \<and> BitNum r' = BitNum r \<and> Len r' = Len r)"

definition saved_record :: "Array \<Rightarrow> arrayData" where
  "saved_record a =
     \<lparr>Data = ga_data (Save_view a), BitNum = ga_bitNum (Save_view a), Len = ga_len (Save_view a)\<rparr>"

section \<open>Storage beyond the logical length\<close>



text \<open>The all-zero bit-vector of a width, as \<open>NewVector\<close> builds it.\<close>

definition zero_Vector :: "int \<Rightarrow> Vector" where
  "zero_Vector bitNum = \<lparr>v_data = replicate (nat (nWords bitNum 1)) 0, v_bitNum = bitNum\<rparr>"

section \<open>The LSH index\<close>

text \<open>
  Feature vectors, row identifiers and result pairs are declared in files of the package
  \<open>nearest\<close> that are not among the sources; \<open>euclid_lsh.go\<close> uses a feature vector as a
  sequence of entries with the fields \<open>Dim\<close> and \<open>Value\<close>, a row identifier as an integer,
  and an \<open>IDist\<close> as a pair of an identifier and a distance.

  The arithmetic of \<open>float32\<close> is not modelled: the type \<open>'f\<close> stands for \<open>float32\<close>, and
  the operations on it are parameters, collected in \<open>float_ops\<close>. \<open>gauss dim j\<close> is the
  \<open>j\<close>-th draw \<open>float32(r.NormFloat64())\<close> of the generator seeded with
  \<open>calcStringHash(dim)\<close>; \<open>fcos_theta h b\<close> is
  \<open>float32(math.Cos(float64(h) * math.Pi / float64(b)))\<close>; \<open>sort_by_dist\<close> is what
  \<open>sort.Sort(sortByDist(buf))\<close> leaves in \<open>buf\<close>.
\<close>

record 'f float_ops =
  fzero :: 'f
  ftwo :: 'f
  fadd :: "'f \<Rightarrow> 'f \<Rightarrow> 'f"
  fsub :: "'f \<Rightarrow> 'f \<Rightarrow> 'f"
  fmul :: "'f \<Rightarrow> 'f \<Rightarrow> 'f"
  fpos :: "'f \<Rightarrow> bool"
  sqrt32 :: "'f \<Rightarrow> 'f"
  fcos_theta :: "int \<Rightarrow> int \<Rightarrow> 'f"
  gauss :: "string \<Rightarrow> nat \<Rightarrow> 'f"
  sort_by_dist :: "(int \<times> 'f) list \<Rightarrow> (int \<times> 'f) list"

type_synonym 'f FeatureVector = "(string \<times> 'f) list"

type_synonym 'f IDist = "int \<times> 'f"

text \<open>A slice of \<open>float32\<close>: visible elements and spare capacity, as for \<open>buf\<close>.\<close>

record 'f fslice =
  fs_elems :: "'f list"
  fs_spare :: "'f list"

definition len_fs :: "'f fslice \<Rightarrow> int" where
  "len_fs s = int (length (fs_elems s))"



text \<open>\<open>lshs\<close> is \<open>None\<close> when \<open>bitvector.NewArray\<close> returned \<open>nil\<close>.\<close>

record 'f EuclidLSH =
  lshs :: "Array option"
  norms :: "'f fslice"



text \<open>
  Modelled from the spec: \<open>Vector.Set(i)\<close> sets bit \<open>i\<close> of the vector, for
  \<open>0 \<le> i < bitNum\<close>. \<open>binarize\<close> calls it with such indices only; for any other index the
  model leaves the vector as it is.
\<close>

definition Vector_Set :: "Vector \<Rightarrow> int \<Rightarrow> Vector" where
  "Vector_Set v i =
     (if 0 \<le> i \<and> i < v_bitNum v \<and> i div 64 < int (length (v_data v))
      then v\<lparr>v_data := (v_data v)[nat (i div 64) := (v_data v) ! nat (i div 64) OR shl 1 (i mod 64)]\<rparr>
      else v)"

text \<open>
  \<open>randomProjection\<close>: the inner loop adds \<open>x * draw j\<close> to \<open>proj[j]\<close> for every \<open>j\<close>, the
  outer loop runs through the entries of the feature vector in their order.
\<close>

definition randomProjection_add :: "'f float_ops \<Rightarrow> string \<Rightarrow> 'f \<Rightarrow> 'f list \<Rightarrow> 'f list" where
  "randomProjection_add ops dim x proj =
     map (\<lambda>j. fadd ops (proj ! j) (fmul ops x (gauss ops dim j))) [0..<length proj]"

fun randomProjection_loop :: "'f float_ops \<Rightarrow> 'f FeatureVector \<Rightarrow> 'f list \<Rightarrow> 'f list" where
  "randomProjection_loop ops [] proj = proj"
| "randomProjection_loop ops ((dim, x) # v) proj =
     randomProjection_loop ops v (randomProjection_add ops dim x proj)"

definition randomProjection :: "'f float_ops \<Rightarrow> 'f FeatureVector \<Rightarrow> int \<Rightarrow> 'f list" where
  "randomProjection ops v hashNum =
     randomProjection_loop ops v (replicate (nat hashNum) (fzero ops))"

text \<open>\<open>binarize\<close>: \<open>None\<close> is the \<open>nil\<close> vector that \<open>NewVector(0)\<close> returns.\<close>

fun binarize_loop :: "'f float_ops \<Rightarrow> 'f list \<Rightarrow> int \<Rightarrow> Vector \<Rightarrow> Vector" where
  "binarize_loop ops [] i ret = ret"
| "binarize_loop ops (x # proj) i ret =
     binarize_loop ops proj (i + 1) (if fpos ops x then Vector_Set ret i else ret)"

definition binarize :: "'f float_ops \<Rightarrow> 'f list \<Rightarrow> Vector option" where
  "binarize ops proj =
     (case NewVector (int (length proj)) of
        None \<Rightarrow> None
      | Some ret \<Rightarrow> Some (binarize_loop ops proj 0 ret))"

definition cosineLSH :: "'f float_ops \<Rightarrow> 'f FeatureVector \<Rightarrow> int \<Rightarrow> Vector option" where
  "cosineLSH ops v hashNum = binarize ops (randomProjection ops v hashNum)"

fun squaredL2Norm_loop :: "'f float_ops \<Rightarrow> 'f FeatureVector \<Rightarrow> 'f \<Rightarrow> 'f" where
  "squaredL2Norm_loop ops [] ret = ret"
| "squaredL2Norm_loop ops ((dim, x) # v) ret =
     squaredL2Norm_loop ops v (fadd ops ret (fmul ops x x))"

definition squaredL2Norm :: "'f float_ops \<Rightarrow> 'f FeatureVector \<Rightarrow> 'f" where
  "squaredL2Norm ops v = squaredL2Norm_loop ops v (fzero ops)"

definition l2Norm :: "'f float_ops \<Rightarrow> 'f FeatureVector \<Rightarrow> 'f" where
  "l2Norm ops v = sqrt32 ops (squaredL2Norm ops v)"




text \<open>The invariant of the index: an array is there, and the norms are as many as its rows.\<close>

definition lengths_agree :: "'f EuclidLSH \<Rightarrow> bool" where
  "lengths_agree e = (case lshs e of None \<Rightarrow> False | Some a \<Rightarrow> len_fs (norms e) = Array_Len a)"

definition valid_index :: "'f EuclidLSH \<Rightarrow> bool" where
  "valid_index e = (case lshs e of None \<Rightarrow> False | Some a \<Rightarrow> valid_Array a)"


section \<open>Queries\<close>

text \<open>
  The state of a query: the index, and the local slices \<open>buf\<close> and \<open>ret\<close> that
  \<open>neighborRowFromHash\<close> allocates and fills. Every statement of the query is a step on this
  state. The error that \<open>HammingDistance\<close> returns is ignored by the source, which then
  computes with the distance 0 returned beside it; a panic ends the query.
\<close>

record 'f query_state =
  q_index :: "'f EuclidLSH"
  q_buf :: "'f IDist list"
  q_ret :: "'f IDist list"

definition hDist_of :: "error + int \<Rightarrow> error + int" where
  "hDist_of r = (case r of Inr h \<Rightarrow> Inr h | Inl RuntimePanic \<Rightarrow> Inl RuntimePanic | Inl _ \<Rightarrow> Inr 0)"

text \<open>One round of the first loop: \<open>buf[i] = IDist{ID(i + 1), score}\<close>.\<close>

definition score_step ::
  "'f float_ops \<Rightarrow> Vector option \<Rightarrow> 'f \<Rightarrow> int \<Rightarrow> 'f query_state \<Rightarrow> error + 'f query_state" where
  "score_step ops x qnorm i s =
     (case (lshs (q_index s), x) of
        (Some a, Some xv) \<Rightarrow>
          bindE (hDist_of (Array_HammingDistance a i xv)) (\<lambda>hDist.
            if 0 \<le> i \<and> i < len_fs (norms (q_index s)) \<and> nat i < length (q_buf s) then
              let ni = fs_elems (norms (q_index s)) ! nat i;
                  score = fmul ops ni
                            (fsub ops ni (fmul ops (fmul ops (ftwo ops) qnorm)
                                            (fcos_theta ops hDist (Array_BitNum a))))
              in Inr (s\<lparr>q_buf := (q_buf s)[nat i := (i + 1, score)]\<rparr>)
            else Inl RuntimePanic)
      | _ \<Rightarrow> Inl RuntimePanic)"

fun score_loop ::
  "'f float_ops \<Rightarrow> Vector option \<Rightarrow> 'f \<Rightarrow> int \<Rightarrow> nat \<Rightarrow> 'f query_state \<Rightarrow> error + 'f query_state" where
  "score_loop ops x qnorm i 0 s = Inr s"
| "score_loop ops x qnorm i (Suc k) s =
     bindE (score_step ops x qnorm i s) (\<lambda>s. score_loop ops x qnorm (i + 1) k s)"

text \<open>One round of the second loop: \<open>ret[i] = IDist{buf[i].ID, sqrt32(squaredNorm + buf[i].Dist)}\<close>.\<close>

definition dist_step :: "'f float_ops \<Rightarrow> 'f \<Rightarrow> nat \<Rightarrow> 'f query_state \<Rightarrow> error + 'f query_state" where
  "dist_step ops squaredNorm i s =
     (if i < length (q_buf s) \<and> i < length (q_ret s)
      then Inr (s\<lparr>q_ret := (q_ret s)[i := (fst (q_buf s ! i),
                                          sqrt32 ops (fadd ops squaredNorm (snd (q_buf s ! i))))]\<rparr>)
      else Inl RuntimePanic)"

fun dist_loop :: "'f float_ops \<Rightarrow> 'f \<Rightarrow> nat \<Rightarrow> nat \<Rightarrow> 'f query_state \<Rightarrow> error + 'f query_state" where
  "dist_loop ops squaredNorm i 0 s = Inr s"
| "dist_loop ops squaredNorm i (Suc k) s =
     bindE (dist_step ops squaredNorm i s) (\<lambda>s. dist_loop ops squaredNorm (Suc i) k s)"

text \<open>
  \<open>neighborRowFromHash\<close>: the result is the state at the end, whose \<open>q_ret\<close> is the slice
  returned and whose \<open>q_index\<close> is the index after the query. \<open>make\<close> with a negative
  length panics.
\<close>

definition neighborRowFromHash ::
  "'f float_ops \<Rightarrow> 'f EuclidLSH \<Rightarrow> Vector option \<Rightarrow> 'f \<Rightarrow> int \<Rightarrow> error + 'f query_state" where
  "neighborRowFromHash ops e x qnorm sz =
     (let s = \<lparr>q_index = e,
                q_buf = replicate (length (fs_elems (norms e))) (0, fzero ops),
                q_ret = []\<rparr>
      in bindE (score_loop ops x qnorm 0 (length (q_buf s)) s) (\<lambda>s.
           let s = s\<lparr>q_buf := sort_by_dist ops (q_buf s)\<rparr>;
               n = minInt sz (int (length (q_buf s)))
           in if n < 0 then Inl RuntimePanic
              else
                let s = s\<lparr>q_ret := replicate (nat n) (0, fzero ops)\<rparr>;
                    squaredNorm = fmul ops qnorm qnorm
                in dist_loop ops squaredNorm 0 (length (q_ret s)) s))"

text \<open>
  \<open>NeighborRowFromID\<close> reads the sketch and the qnorm of a stored row; a failed \<open>Get\<close> leaves
  the \<open>nil\<close> vector, and \<open>e.norms[id-1]\<close> out of range panics.
\<close>

definition NeighborRowFromID ::
  "'f float_ops \<Rightarrow> 'f EuclidLSH \<Rightarrow> int \<Rightarrow> int \<Rightarrow> error + 'f query_state" where
  "NeighborRowFromID ops e rid sz =
     (case lshs e of
        None \<Rightarrow> Inl RuntimePanic
      | Some a \<Rightarrow>
          (case Array_Get a (rid - 1) of
             Inl RuntimePanic \<Rightarrow> Inl RuntimePanic
           | r \<Rightarrow>
               if 0 \<le> rid - 1 \<and> rid - 1 < len_fs (norms e)
               then neighborRowFromHash ops e (case r of Inr x \<Rightarrow> Some x | Inl _ \<Rightarrow> None)
                      (fs_elems (norms e) ! nat (rid - 1)) sz
               else Inl RuntimePanic))"

definition NeighborRowFromFV ::
  "'f float_ops \<Rightarrow> 'f EuclidLSH \<Rightarrow> 'f FeatureVector \<Rightarrow> int \<Rightarrow> error + 'f query_state" where
  "NeighborRowFromFV ops e v sz =
     (case lshs e of
        None \<Rightarrow> Inl RuntimePanic
      | Some a \<Rightarrow> neighborRowFromHash ops e (cosineLSH ops v (Array_BitNum a)) (l2Norm ops v) sz)"

section \<open>Saving and loading the index\<close>






section \<open>The query in the words of the spec\<close>

text \<open>
  The spec words a query as follows. For every stored row \<open>i\<close> in \<open>[0, len)\<close>, \<open>theta\<close> is
  the distance of the row to the query sketch times \<open>pi / hashNum\<close>, and the score of the
  row is \<open>norm_i * (norm_i - 2 * queryNorm * cos(theta))\<close>. All rows are sorted ascending by
  score, the first \<open>size\<close> of them are taken (or fewer if \<open>len < size\<close>), and each is
  reported as the pair of the row's external id \<open>i + 1\<close> and the distance
  \<open>sqrt(queryNorm^2 + score_i)\<close>. The definitions below follow these words, over the same
  parameters \<open>ops\<close> as the model of the code: \<open>spec_hamming\<close> is the population count of
  \<open>get(i) XOR v\<close>, \<open>spec_score\<close> the score, \<open>spec_rows\<close> the rows with their scores,
  \<open>spec_result\<close> the pair reported for a row, and \<open>spec_query\<close> the result of the query.
\<close>

definition spec_hamming :: "Array \<Rightarrow> int \<Rightarrow> Vector \<Rightarrow> int" where
  "spec_hamming a i x =
     (case Array_Get a i of Inr r \<Rightarrow> xor_popcount (v_data r) (v_data x) | Inl _ \<Rightarrow> 0)"

definition spec_score :: "'f float_ops \<Rightarrow> 'f \<Rightarrow> 'f \<Rightarrow> int \<Rightarrow> int \<Rightarrow> 'f" where
  "spec_score ops norm_i queryNorm h hashNum =
     fmul ops norm_i
       (fsub ops norm_i (fmul ops (fmul ops (ftwo ops) queryNorm) (fcos_theta ops h hashNum)))"

definition spec_rows :: "'f float_ops \<Rightarrow> 'f EuclidLSH \<Rightarrow> Array \<Rightarrow> Vector \<Rightarrow> 'f \<Rightarrow> 'f IDist list" where
  "spec_rows ops e a x queryNorm =
     map (\<lambda>i. (int i + 1,
               spec_score ops (fs_elems (norms e) ! i) queryNorm (spec_hamming a (int i) x)
                 (Array_BitNum a)))
       [0..<length (fs_elems (norms e))]"

definition spec_result :: "'f float_ops \<Rightarrow> 'f \<Rightarrow> 'f IDist \<Rightarrow> 'f IDist" where
  "spec_result ops queryNorm r =
     (fst r, sqrt32 ops (fadd ops (fmul ops queryNorm queryNorm) (snd r)))"

definition spec_query ::
  "'f float_ops \<Rightarrow> 'f EuclidLSH \<Rightarrow> Array \<Rightarrow> Vector \<Rightarrow> 'f \<Rightarrow> int \<Rightarrow> 'f IDist list" where
  "spec_query ops e a x queryNorm sz =
     map (spec_result ops queryNorm)
       (take (nat (min sz (len_fs (norms e)))) (sort_by_dist ops (spec_rows ops e a x queryNorm)))"

section \<open>An instance of the operations, to run the model\<close>

text \<open>
  The operations over the integers instead of \<open>float32\<close>, with a sign pattern for the
  draws and a stable sort by distance. They serve to run the index on concrete inputs.
\<close>

definition int_ops :: "int float_ops" where
  "int_ops =
     \<lparr>fzero = 0, ftwo = 2, fadd = (+), fsub = (-), fmul = (*), fpos = (\<lambda>x. 0 < x),
      sqrt32 = (\<lambda>x. x), fcos_theta = (\<lambda>h b. b - 2 * h),
      gauss = (\<lambda>dim j. if even (length dim + j) then 1 else - 1),
      sort_by_dist = sort_key snd\<rparr>"

section \<open>Selection of the specialization\<close>

lemma xor_pred_nonzero: "(b::int) XOR (b - 1) \<noteq> 0"
proof
  assume "b XOR (b - 1) = 0"
  then have "even (b XOR (b - 1))" by simp
  then show False by (simp add: even_xor_iff)
qed

lemma createArray_never_SmallPowerOfTwo:
  "createArray dat bitNum n = Some a \<Longrightarrow> \<not> is_SmallPowerOfTwo a"
  by (auto simp: createArray_def is_SmallPowerOfTwo_def xor_pred_nonzero split: if_splits)

text \<open>
  C2. For a power of two below 64 the selection should give the power-of-two-packed
  specialization. The code gives the small general-packed one: at \<open>bitNum = 8\<close>, both for
  a new array and for any persisted data and length.
\<close>

theorem createArray_power_of_two_selects_smallBits:
  "NewArray 8 = Some (SmallBits \<lparr>ga = \<lparr>ga_data = nil_buf, ga_bitNum = 8, ga_len = 0\<rparr>\<rparr>)
   \<and> createArray \<lparr>elems = [0x0201], spare = []\<rparr> 8 2
       = Some (SmallBits \<lparr>ga = \<lparr>ga_data = \<lparr>elems = [0x0201], spare = []\<rparr>,
                                    ga_bitNum = 8, ga_len = 2\<rparr>\<rparr>)"
  by (simp add: NewArray_def createArray_def wordBits_def)

section \<open>Error results of the distance\<close>

lemma bindE_simps [simp]: "bindE (Inl e) f = Inl e" "bindE (Inr x) f = f x"
  by (simp_all add: bindE_def)

lemma wrap64_id: "- (2 ^ 63) \<le> x \<Longrightarrow> x < 2 ^ 63 \<Longrightarrow> wrap64 x = x"
  by (simp add: wrap64_def)

lemma wrap64_range: "- (2 ^ 63) \<le> wrap64 x" "wrap64 x < 2 ^ 63"
proof -
  have "0 \<le> (x + 2 ^ 63) mod 2 ^ 64" "(x + 2 ^ 63) mod 2 ^ 64 < (2 ^ 64 :: int)"
    by simp_all
  then show "- (2 ^ 63) \<le> wrap64 x" "wrap64 x < 2 ^ 63"
    by (simp_all add: wrap64_def)
qed

lemma bitcount_values:
  "bitcount 1 = 1" "bitcount 2 = 1" "bitcount 3 = 2" "bitcount 4 = 1"
  unfolding bitcount_def by code_simp+

lemma multipleOfWordBitsArray_sum_panic:
  "int (length d) \<le> base + i \<Longrightarrow> base + i < 2 ^ 63 \<Longrightarrow>
   multipleOfWordBitsArray_sum d vd base i (Suc k) ret = Inl RuntimePanic"
  by (simp add: at_def wrap64_id)

lemma HammingDistance_mismatch:
  assumes "Array_BitNum a \<noteq> v_bitNum v"
  shows "Array_HammingDistance a n v = Inl (BitWidthMismatch (Array_BitNum a) (v_bitNum v))"
proof (cases a)
  case (General g)
  with assms show ?thesis
    by (simp add: Array_BitNum_def Array_HammingDistance_def generalArray_HammingDistance_def
        HammingDistance_def generalArray_BitNum_def)
next
  case (SmallBits s)
  with assms show ?thesis
    by (simp add: Array_BitNum_def Array_HammingDistance_def smallBitsArray_HammingDistance_def)
next
  case (WordArr w)
  with assms show ?thesis
    by (simp add: Array_BitNum_def Array_HammingDistance_def wordArray_HammingDistance_def
        wordArray_BitNum_def)
next
  case (SmallPowerOfTwo p)
  with assms have "p2_bitNum p \<noteq> v_bitNum v"
    by (simp add: Array_BitNum_def smallPowerOfTwoBitsArray_BitNum_def)
  then have "smallPowerOfTwoBitsArray_HammingDistance p n v
             = Inl (BitWidthMismatch (p2_bitNum p) (v_bitNum v))"
    unfolding smallPowerOfTwoBitsArray_HammingDistance_def by (rule if_P)
  with SmallPowerOfTwo show ?thesis
    by (simp add: Array_BitNum_def Array_HammingDistance_def smallPowerOfTwoBitsArray_BitNum_def)
next
  case (MultipleOfWord m)
  with assms show ?thesis
    by (simp add: Array_BitNum_def Array_HammingDistance_def
        multipleOfWordBitsArray_HammingDistance_def multipleOfWordBitsArray_BitNum_def)
qed

lemma HammingDistance_index:
  assumes "Array_BitNum a = v_bitNum v"
    and "n < 0 \<or> (Array_Len a \<le> n \<and> \<not> is_MultipleOfWord a)"
  shows "Array_HammingDistance a n v = Inl (IndexOutOfRange n)"
proof (cases a)
  case (General g)
  with assms show ?thesis
    by (auto simp: Array_BitNum_def Array_HammingDistance_def Array_Len_def
        generalArray_HammingDistance_def HammingDistance_def generalArray_BitNum_def
        generalArray_Get_def generalArray_Len_def)
next
  case (SmallBits s)
  with assms have "n < 0 \<or> smallBitsArray_Len s \<le> n" "smallBitsArray_BitNum s = v_bitNum v"
    by (auto simp: Array_BitNum_def Array_Len_def)
  then have "smallBitsArray_HammingDistance s n v = Inl (IndexOutOfRange n)"
    unfolding smallBitsArray_HammingDistance_def by simp
  with SmallBits show ?thesis
    by (simp add: Array_HammingDistance_def)
next
  case (WordArr w)
  with assms show ?thesis
    by (auto simp: Array_BitNum_def Array_HammingDistance_def Array_Len_def
        wordArray_HammingDistance_def wordArray_BitNum_def)
next
  case (SmallPowerOfTwo p)
  with assms have c: "\<not> p2_bitNum p \<noteq> v_bitNum v"
    "n < 0 \<or> n \<ge> smallPowerOfTwoBitsArray_Len p"
    by (auto simp: Array_BitNum_def Array_Len_def smallPowerOfTwoBitsArray_BitNum_def)
  have "smallPowerOfTwoBitsArray_HammingDistance p n v = Inl (IndexOutOfRange n)"
    unfolding smallPowerOfTwoBitsArray_HammingDistance_def
    by (subst if_not_P [OF c(1)]) (rule if_P [OF c(2)])
  with SmallPowerOfTwo show ?thesis
    by (simp add: Array_HammingDistance_def)
next
  case (MultipleOfWord m)
  with assms show ?thesis
    by (auto simp: Array_BitNum_def Array_HammingDistance_def is_MultipleOfWord_def
        multipleOfWordBitsArray_HammingDistance_def multipleOfWordBitsArray_BitNum_def)
qed

lemma HammingDistance_multipleOfWord_panic:
  assumes "valid_Array a" "is_MultipleOfWord a" "Array_BitNum a = v_bitNum v"
    and "0 \<le> n" "Array_Len a \<le> n" "n * (Array_BitNum a div 64) < 2 ^ 63"
  shows "Array_HammingDistance a n v = Inl RuntimePanic"
proof -
  from assms(2) obtain m where a: "a = MultipleOfWord m"
    by (cases a) (auto simp: is_MultipleOfWord_def)
  define nw where "nw = mw_bitNum m div wordBits"
  from assms(1) a have v: "wordBits < mw_bitNum m" "mw_bitNum m mod wordBits = 0"
    "len_buf (mw_data m) mod nw = 0"
    by (auto simp: valid_Array_def nw_def)
  have "mw_bitNum m = 64 * (mw_bitNum m div 64) + mw_bitNum m mod 64"
    by simp
  then have nw: "2 \<le> nw"
    using v(1,2) unfolding nw_def wordBits_def by linarith
  from assms(5) a have "len_buf (mw_data m) div nw \<le> n"
    by (simp add: Array_Len_def multipleOfWordBitsArray_Len_def nw_def)
  then have "len_buf (mw_data m) div nw * nw \<le> n * nw"
    using nw by simp
  moreover have "len_buf (mw_data m) div nw * nw = len_buf (mw_data m)"
    using v(3) by (simp add: mod_0_imp_dvd)
  ultimately have le: "int (length (elems (mw_data m))) \<le> n * nw + 0"
    by (simp add: len_buf_def)
  have lt: "n * nw < 2 ^ 63"
    using assms(6) a by (simp add: Array_BitNum_def multipleOfWordBitsArray_BitNum_def nw_def wordBits_def)
  have "0 \<le> n * nw" using assms(4) nw by simp
  then have w: "wrap64 (n * nw) = n * nw" using lt by (intro wrap64_id) auto
  obtain k where k: "nat nw = Suc k"
    using nw by (cases "nat nw") auto
  have "multipleOfWordBitsArray_sum (elems (mw_data m)) (v_data v) (n * nw) 0 (nat nw) 0
        = Inl RuntimePanic"
    unfolding k using le lt by (intro multipleOfWordBitsArray_sum_panic) auto
  moreover have "multipleOfWordBitsArray_HammingDistance m n v
        = multipleOfWordBitsArray_sum (elems (mw_data m)) (v_data v) (wrap64 (n * nw)) 0 (nat nw) 0"
    using assms(3,4) a
    by (simp add: multipleOfWordBitsArray_HammingDistance_def Array_BitNum_def
        multipleOfWordBitsArray_BitNum_def Let_def nw_def)
  ultimately show ?thesis
    using a by (simp add: Array_HammingDistance_def w)
qed

text \<open>
  C4, as the code has it. The distance returns BitWidthMismatch whenever the widths differ.
  When the widths agree it returns IndexOutOfRange for every negative index and, in every
  specialization but the multi-word-aligned one, for every index at or above the length.
  The multi-word-aligned specialization leaves the upper test out and reads the words from
  position \<open>n * (bitNum / 64)\<close> on: on a well-formed array an index at or above the length
  reads past the end of the buffer and panics, as long as that product stays below \<open>2^63\<close>.
\<close>

theorem HammingDistance_error_results:
  "(Array_BitNum a \<noteq> v_bitNum v \<longrightarrow>
      Array_HammingDistance a n v = Inl (BitWidthMismatch (Array_BitNum a) (v_bitNum v)))
   \<and> (Array_BitNum a = v_bitNum v \<and> (n < 0 \<or> (Array_Len a \<le> n \<and> \<not> is_MultipleOfWord a)) \<longrightarrow>
      Array_HammingDistance a n v = Inl (IndexOutOfRange n))
   \<and> (valid_Array a \<and> is_MultipleOfWord a \<and> Array_BitNum a = v_bitNum v \<and> 0 \<le> n \<and> Array_Len a \<le> n
        \<and> n * (Array_BitNum a div 64) < 2 ^ 63 \<longrightarrow>
      Array_HammingDistance a n v = Inl RuntimePanic)"
  using HammingDistance_mismatch [of a v n] HammingDistance_index [of a v n]
    HammingDistance_multipleOfWord_panic [of a v n]
  by blast

theorem HammingDistance_error_results_witness:
  "Array_HammingDistance
     (SmallBits \<lparr>ga = \<lparr>ga_data = \<lparr>elems = [0x0201], spare = []\<rparr>, ga_bitNum = 8, ga_len = 2\<rparr>\<rparr>)
     5 \<lparr>v_data = [1], v_bitNum = 16\<rparr> = Inl (BitWidthMismatch 8 16)
   \<and> Array_HammingDistance
     (SmallBits \<lparr>ga = \<lparr>ga_data = \<lparr>elems = [0x0201], spare = []\<rparr>, ga_bitNum = 8, ga_len = 2\<rparr>\<rparr>)
     5 \<lparr>v_data = [1], v_bitNum = 8\<rparr> = Inl (IndexOutOfRange 5)
   \<and> Array_HammingDistance
     (MultipleOfWord \<lparr>mw_data = \<lparr>elems = [1, 2], spare = []\<rparr>, mw_bitNum = 128\<rparr>)
     1 \<lparr>v_data = [0, 0], v_bitNum = 128\<rparr> = Inl RuntimePanic"
  using HammingDistance_error_results
      [of "SmallBits \<lparr>ga = \<lparr>ga_data = \<lparr>elems = [0x0201], spare = []\<rparr>, ga_bitNum = 8, ga_len = 2\<rparr>\<rparr>"
          "\<lparr>v_data = [1], v_bitNum = 16\<rparr>" 5]
    HammingDistance_error_results
      [of "SmallBits \<lparr>ga = \<lparr>ga_data = \<lparr>elems = [0x0201], spare = []\<rparr>, ga_bitNum = 8, ga_len = 2\<rparr>\<rparr>"
          "\<lparr>v_data = [1], v_bitNum = 8\<rparr>" 5]
    HammingDistance_error_results
      [of "MultipleOfWord \<lparr>mw_data = \<lparr>elems = [1, 2], spare = []\<rparr>, mw_bitNum = 128\<rparr>"
          "\<lparr>v_data = [0, 0], v_bitNum = 128\<rparr>" 1]
  by (simp add: Array_BitNum_def Array_Len_def smallBitsArray_BitNum_def smallBitsArray_Len_def
      generalArray_BitNum_def generalArray_Len_def is_MultipleOfWord_def valid_Array_def
      multipleOfWordBitsArray_BitNum_def multipleOfWordBitsArray_Len_def wordBits_def len_buf_def)

text \<open>
  The claim as stated fails on a new multi-word-aligned array: index 0 is not below the
  length 0, and the call panics instead of returning IndexOutOfRange. It also fails where
  the product wraps around: on the one-element array of width 256 with the words 1, 2, 3, 4
  the index \<open>2^62\<close> gives the product \<open>2^64\<close>, which is 0 in an \<open>int\<close>, and the call returns
  the distance 5 of element 0 to the zero vector, with no error.
\<close>

theorem HammingDistance_multipleOfWord_counterexample:
  "NewArray 128 = Some (MultipleOfWord \<lparr>mw_data = nil_buf, mw_bitNum = 128\<rparr>)
   \<and> Array_Len (MultipleOfWord \<lparr>mw_data = nil_buf, mw_bitNum = 128\<rparr>) = 0
   \<and> Array_HammingDistance (MultipleOfWord \<lparr>mw_data = nil_buf, mw_bitNum = 128\<rparr>) 0
        \<lparr>v_data = [0, 0], v_bitNum = 128\<rparr> = Inl RuntimePanic
   \<and> Array_Len (MultipleOfWord \<lparr>mw_data = \<lparr>elems = [1, 2, 3, 4], spare = []\<rparr>, mw_bitNum = 256\<rparr>) = 1
   \<and> Array_HammingDistance
        (MultipleOfWord \<lparr>mw_data = \<lparr>elems = [1, 2, 3, 4], spare = []\<rparr>, mw_bitNum = 256\<rparr>)
        (2 ^ 62) \<lparr>v_data = [0, 0, 0, 0], v_bitNum = 256\<rparr> = Inr 5"
  by (simp add: NewArray_def createArray_def wordBits_def Array_Len_def
      multipleOfWordBitsArray_Len_def len_buf_def nil_buf_def Array_HammingDistance_def
      multipleOfWordBitsArray_HammingDistance_def eval_nat_numeral at_def wrap64_def
      bitcount_values)

section \<open>Reading an element: each specialization against the general layout\<close>

lemma at_Inr: "0 \<le> i \<Longrightarrow> i < int (length xs) \<Longrightarrow> at xs i = Inr (xs ! nat i)"
  by (simp add: at_def)

lemma upd_Inr: "0 \<le> i \<Longrightarrow> i < int (length xs) \<Longrightarrow> upd xs i w = Inr (xs[nat i := w])"
  by (simp add: upd_def)

lemma nWords_small: "0 < b \<Longrightarrow> b \<le> 64 \<Longrightarrow> nWords b 1 = 1"
  by (simp add: nWords_def wordBits_def)

lemma valid_Vector_small:
  assumes "valid_Vector v" "v_bitNum v \<le> 64"
  obtains y where "v_data v = [y]"
proof -
  from assms have "length (v_data v) = 1"
    using nWords_small [of "v_bitNum v"] by (auto simp: valid_Vector_def)
  then show ?thesis using that by (cases "v_data v") auto
qed

lemma xor_popcount_single [simp]: "xor_popcount [x] [y] = bitcount (x XOR y)"
  by (simp add: xor_popcount_def)

lemma vector_of_word_small:
  "0 < b \<Longrightarrow> b \<le> 64 \<Longrightarrow> vector_of_word b x = Inr \<lparr>v_data = [x], v_bitNum = b\<rparr>"
  by (simp add: vector_of_word_def NewVector_def nWords_small upd_def)

lemma and_mask_64 [simp]: "(w::word64) AND mask 64 = w"
  by (simp flip: take_bit_eq_mask add: take_bit_word_eq_self)

lemma cap64:
  fixes Y L :: int
  assumes "(Y + 63) div 64 \<le> L"
  shows "Y \<le> 64 * L"
proof -
  have "Y + 63 = 64 * ((Y + 63) div 64) + (Y + 63) mod 64" by simp
  moreover have "(Y + 63) mod 64 < 64" by simp
  ultimately show ?thesis using assms by linarith
qed

lemma div64_lt:
  fixes X L :: int
  assumes "X < 64 * L"
  shows "X div 64 < L"
proof -
  have "X = 64 * (X div 64) + X mod 64" by simp
  moreover have "0 \<le> X mod 64" by simp
  ultimately show ?thesis using assms by linarith
qed

lemma div64_le:
  fixes X L :: int
  assumes "X \<le> 64 * L"
  shows "X div 64 \<le> L"
proof -
  have "X = 64 * (X div 64) + X mod 64" by simp
  moreover have "0 \<le> X mod 64" by simp
  ultimately show ?thesis using assms by linarith
qed

lemma div64_lt_mod:
  fixes X L :: int
  assumes "X \<le> 64 * L" "X mod 64 \<noteq> 0"
  shows "X div 64 < L"
proof -
  have "X = 64 * (X div 64) + X mod 64" by simp
  moreover have "0 \<le> X mod 64" by simp
  ultimately show ?thesis using assms by linarith
qed

lemma row_bounds:
  fixes n b len L :: int
  assumes "0 < b" "0 \<le> n" "n < len" "nWords b len \<le> L"
  shows "0 \<le> n * b" "n * b div 64 < L" "(n * b + b) div 64 \<le> L"
    "(n * b + b) mod 64 \<noteq> 0 \<Longrightarrow> (n * b + b) div 64 < L"
proof -
  have "(n + 1) * b \<le> len * b" using assms by (intro mult_right_mono) auto
  then have le: "n * b + b \<le> b * len" by (simp add: algebra_simps)
  have "(b * len + 63) div 64 \<le> L" using assms(4) by (simp add: nWords_def wordBits_def)
  then have cap: "b * len \<le> 64 * L" by (rule cap64)
  show x: "0 \<le> n * b" using assms by simp
  show "n * b div 64 < L" using le cap assms(1) by (intro div64_lt) linarith
  show "(n * b + b) div 64 \<le> L" using le cap by (intro div64_le) linarith
  show "(n * b + b) mod 64 \<noteq> 0 \<Longrightarrow> (n * b + b) div 64 < L"
    using le cap by (intro div64_lt_mod) auto
qed

subsection \<open>wordArray\<close>

lemma wordArray_Get_Inr:
  assumes "0 \<le> n" "n < wordArray_Len a"
  shows "wordArray_Get a n = Inr \<lparr>v_data = [elems (wa_data a) ! nat n], v_bitNum = 64\<rparr>"
proof -
  have "take (Suc 0) (drop (nat n) (elems (wa_data a) @ spare (wa_data a))) = [elems (wa_data a) ! nat n]"
    using assms by (simp add: wordArray_Len_def len_buf_def take_Suc_conv_app_nth hd_drop_conv_nth nth_append take_Suc)
  then show ?thesis using assms
  by (simp add: wordArray_Get_def slice_range_def wordArray_Len_def len_buf_def cap_buf_def wordBits_def nat_add_distrib)
qed

lemma wordArray_HD_Inr:
  assumes "0 \<le> n" "n < wordArray_Len a" "v_bitNum v = 64" "valid_Vector v"
  shows "wordArray_HammingDistance a n v = Inr (xor_popcount [elems (wa_data a) ! nat n] (v_data v))"
proof -
  from assms obtain y where "v_data v = [y]" by (auto elim: valid_Vector_small)
  then show ?thesis using assms
    by (simp add: wordArray_HammingDistance_def wordBits_def at_def wordArray_Len_def len_buf_def)
qed

lemma wordArray_general_Get:
  assumes "0 \<le> n" "n < wordArray_Len a"
  shows "generalArray_Get (Save_view (WordArr a)) n = Inr \<lparr>v_data = [elems (wa_data a) ! nat n], v_bitNum = 64\<rparr>"
  using assms
  by (simp add: generalArray_Get_def Save_view_def wordBits_def wordArray_Len_def generalArray_Get_inWord_def
      Let_def len_buf_def at_def shr_def leastBits_def)

subsection \<open>smallBitsArray\<close>

lemma set_bits_zero: "0 \<le> n \<Longrightarrow> set_bits 0 0 x n = x AND leastBits n"
  by (simp add: set_bits_def shl_def)

lemma splice_word:
  fixes dl dr :: word64
  assumes "0 < nR" "nR < 64" "0 < lo" "lo < 64"
  shows "set_bits (dr AND leastBits nR) nR (shr dl lo) (64 - lo)
         = (dr AND leastBits nR) OR shl (shr dl lo) nR"
proof -
  have "(dr AND mask (nat nR)) AND NOT (push_bit (nat nR) (mask (nat (64 - lo)))) = dr AND mask (nat nR)"
    by (rule bit_word_eqI) (auto simp: bit_simps)
  moreover have "drop_bit (nat lo) dl AND mask (nat (64 - lo)) = drop_bit (nat lo) dl"
    using assms by (intro bit_word_eqI) (auto simp: bit_simps dest: bit_imp_le_length)
  ultimately show ?thesis using assms
    by (simp add: set_bits_def shl_def shr_def leastBits_def)
qed

lemma smallBits_HD_get:
  assumes "v_data v = [y]" "smallBitsArray_BitNum a = v_bitNum v"
  shows "smallBitsArray_HammingDistance a n v
         = bindE (smallBitsArray_get a n) (\<lambda>x. Inr (bitcount (x XOR y)))"
  using assms
  by (simp add: smallBitsArray_HammingDistance_def smallBitsArray_get_def Let_def at_def)

lemma smallBits_get_total:
  assumes "valid_Array (SmallBits a)" "0 \<le> n" "n < smallBitsArray_Len a"
  shows "\<exists>x. smallBitsArray_get a n = Inr x"
proof -
  define b where "b = ga_bitNum (ga a)"
  define L where "L = int (length (elems (ga_data (ga a))))"
  from assms have b: "0 < b" "b < 64" and cap: "nWords b (ga_len (ga a)) \<le> L" and n: "n < ga_len (ga a)"
    by (auto simp: valid_Array_def b_def L_def len_buf_def wordBits_def smallBitsArray_Len_def generalArray_Len_def)
  note rb = row_bounds [OF b(1) assms(2) n cap]
  have l: "at (elems (ga_data (ga a))) (n * b div 64) = Inr (elems (ga_data (ga a)) ! nat (n * b div 64))"
    using rb(1,2) by (intro at_Inr) (auto simp: L_def pos_imp_zdiv_nonneg_iff)
  have r: "(n * b + b) mod 64 \<noteq> 0 \<Longrightarrow>
    at (elems (ga_data (ga a))) ((n * b + b) div 64) = Inr (elems (ga_data (ga a)) ! nat ((n * b + b) div 64))"
    using rb(1,4) b by (intro at_Inr) (auto simp: L_def pos_imp_zdiv_nonneg_iff)
  show ?thesis using assms(2) n l r
    by (auto simp add: smallBitsArray_get_def smallBitsArray_Len_def smallBitsArray_BitNum_def generalArray_Len_def
        generalArray_BitNum_def Let_def wordBits_def b_def[symmetric])
qed

lemma step_abs:
  fixes q m q' m' b :: int
  assumes "64 * q + m + b = 64 * q' + m'" "0 \<le> m" "m < 64" "0 \<le> m'" "m' < 64" "0 < b" "b < 64"
  shows "q' = q \<or> q' = q + 1" "q' \<noteq> q \<Longrightarrow> m' = m + b - 64" "q' \<noteq> q \<Longrightarrow> m' \<noteq> 0 \<Longrightarrow> m \<noteq> 0"
proof -
  have "q \<le> q'" "q' \<le> q + 1" using assms by linarith+
  then show s: "q' = q \<or> q' = q + 1" by linarith
  show t: "m' = m + b - 64" if "q' \<noteq> q"
  proof -
    from s that have "q' = q + 1" by simp
    with assms(1) show ?thesis by simp
  qed
  show "m \<noteq> 0" if "q' \<noteq> q" "m' \<noteq> 0"
    using t [OF that(1)] that(2) assms by linarith
qed

lemma small_row_step:
  fixes X b :: int
  assumes "0 < b" "b < 64"
  shows "(X + b) div 64 = X div 64 \<or> (X + b) div 64 = X div 64 + 1"
    "(X + b) div 64 \<noteq> X div 64 \<Longrightarrow> (X + b) mod 64 = X mod 64 + b - 64"
    "(X + b) div 64 \<noteq> X div 64 \<Longrightarrow> (X + b) mod 64 \<noteq> 0 \<Longrightarrow> X mod 64 \<noteq> 0"
proof -
  have e: "64 * (X div 64) + X mod 64 + b = 64 * ((X + b) div 64) + (X + b) mod 64"
    by simp
  have m: "0 \<le> X mod 64" "X mod 64 < 64" "0 \<le> (X + b) mod 64" "(X + b) mod 64 < 64"
    by simp_all
  note s = step_abs [OF e m assms]
  show "(X + b) div 64 = X div 64 \<or> (X + b) div 64 = X div 64 + 1" by (rule s(1))
  show "(X + b) div 64 \<noteq> X div 64 \<Longrightarrow> (X + b) mod 64 = X mod 64 + b - 64" by (rule s(2))
  show "(X + b) div 64 \<noteq> X div 64 \<Longrightarrow> (X + b) mod 64 \<noteq> 0 \<Longrightarrow> X mod 64 \<noteq> 0" by (rule s(3))
qed


lemma copy_nil [simp]: "copy xs [] = xs"
  by (simp add: copy_def)

lemma smallBits_general_Get:
  assumes "valid_Array (SmallBits a)" "0 \<le> n" "n < smallBitsArray_Len a"
  shows "generalArray_Get (ga a) n = smallBitsArray_Get a n"
proof -
  define b where "b = ga_bitNum (ga a)"
  define d where "d = elems (ga_data (ga a))"
  define L where "L = int (length d)"
  define X where "X = n * b"
  from assms have b: "0 < b" "b < 64" and cap: "nWords b (ga_len (ga a)) \<le> L" and n: "n < ga_len (ga a)"
    by (auto simp: valid_Array_def b_def L_def d_def len_buf_def wordBits_def smallBitsArray_Len_def generalArray_Len_def)
  note rb = row_bounds [OF b(1) assms(2) n cap, folded X_def]
  note st = small_row_step [OF b, of X]
  have l: "at d (X div 64) = Inr (d ! nat (X div 64))"
    using rb(1,2) by (intro at_Inr) (auto simp: L_def pos_imp_zdiv_nonneg_iff)
  have idx: "\<not> (n < 0 \<or> ga_len (ga a) \<le> n)" using assms(2) n by simp
  show ?thesis
  proof (cases "X div 64 = (X + b) div 64 \<or> (X + b) mod 64 = 0")
    case True
    then have c: "X div 64 = (X + b) div 64 \<or> (X div 64 + 1 = (X + b) div 64 \<and> (X + b) mod 64 = 0)"
      using st(1) by auto
    show ?thesis using idx True c l b
      by (simp add: generalArray_Get_def smallBitsArray_Get_def smallBitsArray_get_def
          smallBitsArray_Len_def smallBitsArray_BitNum_def generalArray_Len_def generalArray_BitNum_def
          Let_def wordBits_def generalArray_Get_inWord_def vector_of_word_small
          b_def[symmetric] d_def[symmetric] X_def[symmetric])
  next
    case False
    then have ne: "(X + b) div 64 \<noteq> X div 64" and nR: "(X + b) mod 64 \<noteq> 0" by auto
    have r1: "(X + b) div 64 = X div 64 + 1" using st(1) ne by auto
    have lo: "X mod 64 \<noteq> 0" using st(3) [OF ne nR] .
    have m: "(X + b) mod 64 = X mod 64 + b - 64" using st(2) [OF ne] .
    have r: "at d ((X + b) div 64) = Inr (d ! nat ((X + b) div 64))"
      using rb(1,4) nR b by (intro at_Inr) (auto simp: L_def pos_imp_zdiv_nonneg_iff)
    have c: "\<not> (X div 64 = (X + b) div 64 \<or> (X div 64 + 1 = (X + b) div 64 \<and> (X + b) mod 64 = 0))"
      using False by auto
    have sl: "slice_range (ga_data (ga a)) (X div 64 + 1) ((X + b) div 64) = Inr []"
      using r1 rb(1,3) by (simp add: slice_range_def cap_buf_def L_def d_def pos_imp_zdiv_nonneg_iff)
    have mpos: "0 < (X + b) mod 64" "(X + b) mod 64 < 64" "0 < X mod 64" "X mod 64 < 64"
    proof -
      have "0 \<le> (X + b) mod 64" "0 \<le> X mod 64" by simp_all
      then show "0 < (X + b) mod 64" "0 < X mod 64" using nR lo by linarith+
      show "(X + b) mod 64 < 64" "X mod 64 < 64" by simp_all
    qed
    have sp: "set_bits (d ! nat ((X + b) div 64) AND leastBits ((X + b) mod 64)) ((X + b) mod 64) (shr (d ! nat (X div 64)) (X mod 64)) (64 - X mod 64)
         = (d ! nat ((X + b) div 64) AND leastBits ((X + b) mod 64)) OR shl (shr (d ! nat (X div 64)) (X mod 64)) ((X + b) mod 64)"
      by (rule splice_word [OF mpos])
    have g: "generalArray_Get (ga a) n = Inr \<lparr>v_data = [(d ! nat ((X + b) div 64) AND leastBits ((X + b) mod 64)) OR shl (shr (d ! nat (X div 64)) (X mod 64)) ((X + b) mod 64)], v_bitNum = b\<rparr>"
      using idx c lo l r sl nR b m sp
      by (simp add: generalArray_Get_def Let_def wordBits_def generalArray_Get_spliced_def
           nWords_small make_buf_def set_in_def at_def upd_def set_bits_zero
          b_def[symmetric] d_def[symmetric] X_def[symmetric])
    have s: "smallBitsArray_Get a n = Inr \<lparr>v_data = [(d ! nat ((X + b) div 64) AND leastBits ((X + b) mod 64)) OR shl (shr (d ! nat (X div 64)) (X mod 64)) ((X + b) mod 64)], v_bitNum = b\<rparr>"
      using idx False l r b
      by (simp add: smallBitsArray_Get_def smallBitsArray_get_def
          smallBitsArray_Len_def smallBitsArray_BitNum_def generalArray_Len_def generalArray_BitNum_def
          Let_def wordBits_def vector_of_word_small
          b_def[symmetric] d_def[symmetric] X_def[symmetric])
    show ?thesis using g s by simp
  qed
qed

subsection \<open>Population counts of narrowed words\<close>

lemma popcount_ucast:
  fixes w :: "'a::len word"
  assumes "LENGTH('b::len) \<le> LENGTH('a)"
  shows "popcount (ucast w :: 'b word) = popcount (take_bit LENGTH('b) w)"
proof -
  have split: "[0..<LENGTH('a)] = [0..<LENGTH('b)] @ [LENGTH('b)..<LENGTH('a)]"
    using assms by (metis le_add_diff_inverse upt_add_eq_append zero_le)
  have a: "filter (bit (take_bit LENGTH('b) w)) [LENGTH('b)..<LENGTH('a)] = []"
    by (auto simp: filter_empty_conv bit_take_bit_iff)
  have b: "filter (bit (take_bit LENGTH('b) w)) [0..<LENGTH('b)]
           = filter (bit (ucast w :: 'b word)) [0..<LENGTH('b)]"
    by (rule filter_cong) (auto simp: bit_take_bit_iff bit_ucast_iff)
  have "filter (bit (take_bit LENGTH('b) w)) [0..<LENGTH('a)]
        = filter (bit (take_bit LENGTH('b) w)) [0..<LENGTH('b)]
          @ filter (bit (take_bit LENGTH('b) w)) [LENGTH('b)..<LENGTH('a)]"
    using split by (metis filter_append)
  then show ?thesis unfolding popcount_def by (simp add: a b)
qed

lemma popcount_0 [simp]: "popcount (0 :: 'a::len word) = 0"
  by (simp add: popcount_def)

lemma popcount_1 [simp]: "popcount (1 :: 'a::len word) = 1"
proof -
  have "filter (bit (1 :: 'a word)) [0..<LENGTH('a)] = filter (\<lambda>n. n = 0) [0..<LENGTH('a)]"
    by (rule filter_cong) (auto simp: bit_1_iff)
  also have "\<dots> = filter (\<lambda>n. n = 0) (0 # [1..<LENGTH('a)])"
    by (simp add: upt_conv_Cons)
  also have "\<dots> = [0]"
    by (simp add: filter_empty_conv)
  finally show ?thesis by (simp add: popcount_def)
qed

lemma word_le_one_cases:
  fixes w :: word64
  assumes "w AND NOT 1 = 0"
  shows "w = 0 \<or> w = 1"
proof -
  have "w = of_bool (odd w)"
  proof (rule bit_word_eqI)
    fix n assume "n < LENGTH(64)"
    have "bit (w AND NOT 1) n = bit (0 :: word64) n" using assms by simp
    then have "n \<noteq> 0 \<Longrightarrow> \<not> bit w n"
      using \<open>n < LENGTH(64)\<close> by (simp add: bit_and_iff bit_not_iff bit_1_iff)
    then show "bit w n = bit (of_bool (odd w) :: word64) n"
      by (cases "n = 0") (auto simp: bit_0 bit_of_bool_iff)
  qed
  then show ?thesis by (cases "odd w") auto
qed

lemma sint_bit0:
  fixes w :: word64
  assumes "w AND NOT 1 = 0"
  shows "sint w = popcount w"
  using word_le_one_cases [OF assms] by auto


lemma take_bit_id:
  fixes z :: "'a::len word"
  assumes "z AND NOT (mask k) = 0"
  shows "take_bit k z = z"
proof (rule bit_word_eqI)
  fix i assume "i < LENGTH('a)"
  have "bit (z AND NOT (mask k)) i = bit (0 :: 'a word) i" using assms by simp
  then have "bit z i \<Longrightarrow> i < k" using \<open>i < LENGTH('a)\<close> by (auto simp: bit_simps)
  then show "bit (take_bit k z) i = bit z i" by (auto simp: bit_simps)
qed

lemma xor_masked:
  fixes s y :: "'a::len word"
  assumes "y AND NOT (mask k) = 0" "j \<le> k"
  shows "((s AND mask j) XOR y) AND NOT (mask k) = 0"
proof (rule bit_word_eqI)
  fix i assume "i < LENGTH('a)"
  have "bit (y AND NOT (mask k)) i = bit (0 :: 'a word) i" using assms by simp
  then have "bit y i \<Longrightarrow> i < k" using \<open>i < LENGTH('a)\<close> by (auto simp: bit_simps)
  then show "bit (((s AND mask j) XOR y) AND NOT (mask k)) i = bit (0 :: 'a word) i"
    using assms(2) by (auto simp: bit_simps)
qed

lemma mask_mono_zero:
  fixes y :: "'a::len word"
  assumes "y AND NOT (mask j) = 0" "j \<le> k"
  shows "y AND NOT (mask k) = 0"
proof (rule bit_word_eqI)
  fix i assume "i < LENGTH('a)"
  have "bit (y AND NOT (mask j)) i = bit (0 :: 'a word) i" using assms by simp
  then have "bit y i \<Longrightarrow> i < j" using \<open>i < LENGTH('a)\<close> by (auto simp: bit_simps)
  then show "bit (y AND NOT (mask k)) i = bit (0 :: 'a word) i"
    using assms(2) by (auto simp: bit_simps)
qed

lemma popcount_ucast16_masked:
  fixes s y :: word64
  assumes "y AND NOT (mask j) = 0" "j \<le> 16"
  shows "bitcount16 (ucast ((s AND mask j) XOR y)) = bitcount ((s AND mask j) XOR y)"
proof -
  have "((s AND mask j) XOR y) AND NOT (mask 16) = 0"
    by (rule xor_masked [OF mask_mono_zero [OF assms] assms(2)])
  then have "take_bit 16 ((s AND mask j) XOR y) = (s AND mask j) XOR y" by (rule take_bit_id)
  then show ?thesis
    using popcount_ucast [where 'b = 16 and w = "(s AND mask j) XOR y"]
    by (simp add: bitcount16_def bitcount_def)
qed


subsection \<open>smallPowerOfTwoBitsArray\<close>

lemma pow2_div:
  fixes n b :: int
  assumes "b \<in> {1, 2, 4, 8, 16, 32}"
  shows "n * b div 64 = n div (64 div b)" "n * b mod 64 = n mod (64 div b) * b"
proof -
  have e: "64 = (64 div b) * b" "b \<noteq> 0" using assms by auto
  have "n * b div 64 = n * b div ((64 div b) * b)" using e(1) by simp
  also have "\<dots> = n div (64 div b)" using e(2) by (rule div_mult_mult2)
  finally show "n * b div 64 = n div (64 div b)" .
  have "n * b mod 64 = n * b mod ((64 div b) * b)" using e(1) by simp
  also have "\<dots> = n mod (64 div b) * b" by (rule mod_mult_mult2)
  finally show "n * b mod 64 = n mod (64 div b) * b" .
qed

lemma pow2_get_Inr:
  assumes "valid_Array (SmallPowerOfTwo p)" "0 \<le> n" "n < p2_len p"
  shows "smallPowerOfTwoBitsArray_get p n
         = Inr (shr (elems (p2_data p) ! nat (n * p2_bitNum p div 64)) (n * p2_bitNum p mod 64)
                AND leastBits (p2_bitNum p))"
proof -
  define b where "b = p2_bitNum p"
  define L where "L = int (length (elems (p2_data p)))"
  from assms have bs: "b \<in> {1, 2, 4, 8, 16, 32}" and cap: "nWords b (p2_len p) \<le> L"
    by (auto simp: valid_Array_def b_def L_def len_buf_def)
  then have b: "0 < b" "b \<noteq> 0" "64 div b \<noteq> 0" by auto
  note rb = row_bounds [OF b(1) assms(2,3) cap]
  note pd = pow2_div [OF bs, of n]
  have "0 \<le> n * b div 64" using rb(1) by (simp add: pos_imp_zdiv_nonneg_iff)
  then have l: "at (elems (p2_data p)) (n div (64 div b)) = Inr (elems (p2_data p) ! nat (n div (64 div b)))"
    using rb(2) unfolding pd(1) by (intro at_Inr) (auto simp: L_def)
  show ?thesis using b l
    by (simp add: smallPowerOfTwoBitsArray_get_def Let_def wordBits_def pd b_def[symmetric])
qed


lemma popcount_ucast_masked:
  fixes s y :: word64
  assumes "y AND NOT (mask j) = 0" "j \<le> LENGTH('b::len)" "LENGTH('b) \<le> 64"
  shows "popcount (ucast ((s AND mask j) XOR y) :: 'b word) = popcount ((s AND mask j) XOR y)"
proof -
  have "((s AND mask j) XOR y) AND NOT (mask LENGTH('b)) = 0"
    by (rule xor_masked [OF mask_mono_zero [OF assms(1,2)] assms(2)])
  then have "take_bit LENGTH('b) ((s AND mask j) XOR y) = (s AND mask j) XOR y" by (rule take_bit_id)
  then show ?thesis
    using popcount_ucast [where 'b = 'b and w = "(s AND mask j) XOR y"] assms(3)
    by simp
qed

lemma ucast_xor_masked:
  fixes s y :: word64
  shows "(ucast s :: 'b::len word) XOR ucast y = ucast ((s AND mask LENGTH('b)) XOR y)"
  by (rule bit_word_eqI) (auto simp: bit_simps dest: bit_imp_le_length)

lemma mask_vals:
  "mask 1 = (1 :: word64)" "mask 2 = (3 :: word64)" "mask 4 = (0xF :: word64)"
  "mask 8 = (0xFF :: word64)"
  by (simp_all add: mask_eq_exp_minus_1)

lemma pow2_HD_cases:
  fixes full y :: word64
  shows "y AND NOT (mask 1) = 0 \<Longrightarrow> sint ((shr full k AND 1) XOR y) = bitcount ((shr full k AND leastBits 1) XOR y)"
    "y AND NOT (mask 2) = 0 \<Longrightarrow> bitcount16 (ucast ((shr full k AND 3) XOR y)) = bitcount ((shr full k AND leastBits 2) XOR y)"
    "y AND NOT (mask 4) = 0 \<Longrightarrow> bitcount16 (ucast ((shr full k AND 0xF) XOR y)) = bitcount ((shr full k AND leastBits 4) XOR y)"
    "y AND NOT (mask 8) = 0 \<Longrightarrow> bitcount16 (ucast ((shr full k AND 0xFF) XOR y)) = bitcount ((shr full k AND leastBits 8) XOR y)"
    "y AND NOT (mask 16) = 0 \<Longrightarrow> bitcount16 (ucast (shr full k) XOR ucast y) = bitcount ((shr full k AND leastBits 16) XOR y)"
    "y AND NOT (mask 32) = 0 \<Longrightarrow> bitcount32 (ucast (shr full k) XOR ucast y) = bitcount ((shr full k AND leastBits 32) XOR y)"
proof -
  show "sint ((shr full k AND 1) XOR y) = bitcount ((shr full k AND leastBits 1) XOR y)" if "y AND NOT (mask 1) = 0"
  proof -
    have "((shr full k AND mask 1) XOR y) AND NOT (mask 1) = 0"
      by (rule xor_masked [OF that order_refl])
    then have "sint ((shr full k AND mask 1) XOR y) = popcount ((shr full k AND mask 1) XOR y)"
      by (intro sint_bit0) simp
    then show ?thesis by (simp add: bitcount_def leastBits_def mask_vals)
  qed
  show "bitcount16 (ucast ((shr full k AND 3) XOR y)) = bitcount ((shr full k AND leastBits 2) XOR y)" if "y AND NOT (mask 2) = 0"
    using popcount_ucast_masked [where 'b = 16 and j = 2 and s = "shr full k", OF that]
    by (simp add: bitcount_def bitcount16_def leastBits_def mask_vals)
  show "bitcount16 (ucast ((shr full k AND 0xF) XOR y)) = bitcount ((shr full k AND leastBits 4) XOR y)" if "y AND NOT (mask 4) = 0"
    using popcount_ucast_masked [where 'b = 16 and j = 4 and s = "shr full k", OF that]
    by (simp add: bitcount_def bitcount16_def leastBits_def mask_vals)
  show "bitcount16 (ucast ((shr full k AND 0xFF) XOR y)) = bitcount ((shr full k AND leastBits 8) XOR y)" if "y AND NOT (mask 8) = 0"
    using popcount_ucast_masked [where 'b = 16 and j = 8 and s = "shr full k", OF that]
    by (simp add: bitcount_def bitcount16_def leastBits_def mask_vals)
  show "bitcount16 (ucast (shr full k) XOR ucast y) = bitcount ((shr full k AND leastBits 16) XOR y)" if "y AND NOT (mask 16) = 0"
    using popcount_ucast_masked [where 'b = 16 and j = 16 and s = "shr full k", OF that]
      ucast_xor_masked [where 'b = 16 and s = "shr full k" and y = y]
    by (simp add: bitcount_def bitcount16_def leastBits_def)
  show "bitcount32 (ucast (shr full k) XOR ucast y) = bitcount ((shr full k AND leastBits 32) XOR y)" if "y AND NOT (mask 32) = 0"
    using popcount_ucast_masked [where 'b = 32 and j = 32 and s = "shr full k", OF that]
      ucast_xor_masked [where 'b = 32 and s = "shr full k" and y = y]
    by (simp add: bitcount_def bitcount32_def leastBits_def)
qed

lemma valid_Vector_word:
  assumes "valid_Vector v" "v_bitNum v < 64"
  obtains y where "v_data v = [y]" "y AND NOT (mask (nat (v_bitNum v))) = 0"
proof -
  from assms obtain y where y: "v_data v = [y]" by (auto elim: valid_Vector_small)
  from assms have "0 < v_bitNum v" by (simp add: valid_Vector_def)
  then have "v_bitNum v mod 64 = v_bitNum v" "v_bitNum v \<noteq> 0" using assms(2) by auto
  then have "y AND NOT (mask (nat (v_bitNum v))) = 0"
    using assms(1) y by (simp add: valid_Vector_def wordBits_def leastBits_def)
  then show ?thesis using y that by blast
qed

lemma pow2_HD_Inr:
  assumes "valid_Array (SmallPowerOfTwo p)" "0 \<le> n" "n < p2_len p"
    and "valid_Vector v" "v_bitNum v = p2_bitNum p"
  shows "smallPowerOfTwoBitsArray_HammingDistance p n v
         = Inr (xor_popcount
             [shr (elems (p2_data p) ! nat (n * p2_bitNum p div 64)) (n * p2_bitNum p mod 64)
                AND leastBits (p2_bitNum p)] (v_data v))"
proof -
  define b where "b = p2_bitNum p"
  define d where "d = elems (p2_data p)"
  define L where "L = int (length d)"
  from assms have bs: "b \<in> {1, 2, 4, 8, 16, 32}" and cap: "nWords b (p2_len p) \<le> L"
    by (auto simp: valid_Array_def b_def L_def d_def len_buf_def)
  then have b: "0 < b" "b < 64" by auto
  from assms(4,5) b obtain y where y: "v_data v = [y]" "y AND NOT (mask (nat b)) = 0"
    by (auto elim: valid_Vector_word simp: b_def)
  note rb = row_bounds [OF b(1) assms(2,3) cap]
  note pd = pow2_div [OF bs, of n]
  have "0 \<le> n * b div 64" using rb(1) by (simp add: pos_imp_zdiv_nonneg_iff)
  then have l: "at d (n div (64 div b)) = Inr (d ! nat (n div (64 div b)))"
    using rb(2) unfolding pd(1) by (intro at_Inr) (auto simp: L_def)
  have g: "\<not> p2_bitNum p \<noteq> v_bitNum v" "\<not> (n < 0 \<or> n \<ge> smallPowerOfTwoBitsArray_Len p)"
    using assms by (auto simp: smallPowerOfTwoBitsArray_Len_def)
  have y0: "at [y] 0 = Inr y" by (simp add: at_def)
  from bs consider "b = 1" | "b = 2" | "b = 4" | "b = 8" | "b = 16" | "b = 32" by auto
  then show ?thesis
  proof cases
    case 1
    then show ?thesis using l y pd y0 g pow2_HD_cases(1) [of y "d ! nat (n div 64)" "n mod 64"]
      unfolding smallPowerOfTwoBitsArray_HammingDistance_def if_not_P [OF g(1)] if_not_P [OF g(2)]
      by (simp add: b_def[symmetric] d_def[symmetric] Let_def)
  next
    case 2
    then show ?thesis using l y pd y0 g pow2_HD_cases(2) [of y "d ! nat (n div 32)" "2 * (n mod 32)"]
      unfolding smallPowerOfTwoBitsArray_HammingDistance_def if_not_P [OF g(1)] if_not_P [OF g(2)]
      by (simp add: b_def[symmetric] d_def[symmetric] Let_def mult.commute)
  next
    case 3
    then show ?thesis using l y pd y0 g pow2_HD_cases(3) [of y "d ! nat (n div 16)" "4 * (n mod 16)"]
      unfolding smallPowerOfTwoBitsArray_HammingDistance_def if_not_P [OF g(1)] if_not_P [OF g(2)]
      by (simp add: b_def[symmetric] d_def[symmetric] Let_def mult.commute)
  next
    case 4
    then show ?thesis using l y pd y0 g pow2_HD_cases(4) [of y "d ! nat (n div 8)" "8 * (n mod 8)"]
      unfolding smallPowerOfTwoBitsArray_HammingDistance_def if_not_P [OF g(1)] if_not_P [OF g(2)]
      by (simp add: b_def[symmetric] d_def[symmetric] Let_def mult.commute)
  next
    case 5
    then show ?thesis using l y pd y0 g pow2_HD_cases(5) [of y "d ! nat (n div 4)" "16 * (n mod 4)"]
      unfolding smallPowerOfTwoBitsArray_HammingDistance_def if_not_P [OF g(1)] if_not_P [OF g(2)]
      by (simp add: b_def[symmetric] d_def[symmetric] Let_def mult.commute)
  next
    case 6
    then show ?thesis using l y pd y0 g pow2_HD_cases(6) [of y "d ! nat (n div 2)" "32 * (n mod 2)"]
      unfolding smallPowerOfTwoBitsArray_HammingDistance_def if_not_P [OF g(1)] if_not_P [OF g(2)]
      by (simp add: b_def[symmetric] d_def[symmetric] Let_def mult.commute)
  qed
qed


lemma pow2_Get_Inr:
  assumes "valid_Array (SmallPowerOfTwo p)" "0 \<le> n" "n < p2_len p"
  shows "smallPowerOfTwoBitsArray_Get p n
         = Inr \<lparr>v_data = [shr (elems (p2_data p) ! nat (n * p2_bitNum p div 64)) (n * p2_bitNum p mod 64)
                AND leastBits (p2_bitNum p)], v_bitNum = p2_bitNum p\<rparr>"
proof -
  from assms(1) have "0 < p2_bitNum p" "p2_bitNum p \<le> 64"
    by (auto simp: valid_Array_def)
  then show ?thesis using assms(2,3) pow2_get_Inr [OF assms]
    by (simp add: smallPowerOfTwoBitsArray_Get_def smallPowerOfTwoBitsArray_Len_def vector_of_word_small)
qed

lemma pow2_inWord:
  fixes n b :: int
  assumes "b \<in> {1, 2, 4, 8, 16, 32}" "0 \<le> n"
  shows "n * b div 64 = (n * b + b) div 64 \<or>
         (n * b div 64 + 1 = (n * b + b) div 64 \<and> (n * b + b) mod 64 = 0)"
proof -
  define k where "k = 64 div b"
  define m where "m = n mod k"
  have k: "0 < k" "k * b = 64" "0 < b" using assms(1) by (auto simp: k_def)
  have "m < k" "0 \<le> m" using k(1) by (simp_all add: m_def)
  then have "(m + 1) * b \<le> k * b" using k(3) by (intro mult_right_mono) auto
  then have mb: "m * b + b \<le> 64" "0 \<le> m * b" using k \<open>0 \<le> m\<close> by (simp_all add: algebra_simps)
  have md: "n * b mod 64 = m * b" using pow2_div(2) [OF assms(1), of n] by (simp add: m_def k_def)
  have e: "64 * (n * b div 64) + n * b mod 64 + b = 64 * ((n * b + b) div 64) + (n * b + b) mod 64"
    by simp
  have r: "0 \<le> (n * b + b) mod 64" "(n * b + b) mod 64 < 64" by simp_all
  show ?thesis using e r mb k(3) unfolding md by linarith
qed

lemma pow2_general_Get:
  assumes "valid_Array (SmallPowerOfTwo p)" "0 \<le> n" "n < p2_len p"
  shows "generalArray_Get (Save_view (SmallPowerOfTwo p)) n = smallPowerOfTwoBitsArray_Get p n"
proof -
  define b where "b = p2_bitNum p"
  define d where "d = elems (p2_data p)"
  define L where "L = int (length d)"
  from assms have bs: "b \<in> {1, 2, 4, 8, 16, 32}" and cap: "nWords b (p2_len p) \<le> L"
    by (auto simp: valid_Array_def b_def L_def d_def len_buf_def)
  then have b: "0 < b" "b < 64" by auto
  note rb = row_bounds [OF b(1) assms(2,3) cap]
  have "0 \<le> n * b div 64" using rb(1) by (simp add: pos_imp_zdiv_nonneg_iff)
  then have l: "at d (n * b div 64) = Inr (d ! nat (n * b div 64))"
    using rb(2) by (intro at_Inr) (auto simp: L_def)
  have idx: "\<not> (n < 0 \<or> p2_len p \<le> n)" using assms(2,3) by simp
  show ?thesis
    unfolding pow2_Get_Inr [OF assms]
    using idx l pow2_inWord [OF bs assms(2)]
    by (simp add: generalArray_Get_def Save_view_def Let_def wordBits_def generalArray_Get_inWord_def
          b_def[symmetric] d_def[symmetric])
qed

subsection \<open>multipleOfWordBitsArray\<close>

lemma xor_popcount_Cons [simp]:
  "xor_popcount (x # xs) (y # ys) = bitcount (x XOR y) + xor_popcount xs ys"
  by (simp add: xor_popcount_def)

lemma xor_popcount_Nil [simp]: "xor_popcount [] ys = 0"
  by (simp add: xor_popcount_def)

lemma multipleOfWordBitsArray_sum_eq:
  assumes "0 \<le> base" "0 \<le> i" "base + i + int k \<le> int (length d)" "i + int k \<le> int (length vd)"
    and "int (length d) < 2 ^ 63"
  shows "multipleOfWordBitsArray_sum d vd base i k ret
         = Inr (ret + xor_popcount (take k (drop (nat (base + i)) d)) (drop (nat i) vd))"
  using assms
proof (induction k arbitrary: i ret)
  case 0
  then show ?case by simp
next
  case (Suc k)
  have "wrap64 (base + i) = base + i" using Suc.prems by (intro wrap64_id) auto
  then have a: "at d (wrap64 (base + i)) = Inr (d ! nat (base + i))" "at vd i = Inr (vd ! nat i)"
    using Suc.prems by (auto intro!: at_Inr)
  have n: "nat (base + (i + 1)) = Suc (nat (base + i))" "nat (i + 1) = Suc (nat i)"
    using Suc.prems by auto
  have d: "drop (nat (base + i)) d = d ! nat (base + i) # drop (Suc (nat (base + i))) d"
    using Suc.prems by (intro Cons_nth_drop_Suc [symmetric]) auto
  have v: "drop (nat i) vd = vd ! nat i # drop (Suc (nat i)) vd"
    using Suc.prems by (intro Cons_nth_drop_Suc [symmetric]) auto
  have "multipleOfWordBitsArray_sum d vd base (i + 1) k (ret + bitcount (d ! nat (base + i) XOR vd ! nat i))
        = Inr (ret + bitcount (d ! nat (base + i) XOR vd ! nat i)
            + xor_popcount (take k (drop (nat (base + (i + 1))) d)) (drop (nat (i + 1)) vd))"
    using Suc.prems by (intro Suc.IH) auto
  then show ?case
    by (simp add: a n) (simp add: d v)
qed


lemma multipleOfWord_facts:
  assumes "valid_Array (MultipleOfWord m)" "0 \<le> n" "n < multipleOfWordBitsArray_Len m"
  defines "nw \<equiv> mw_bitNum m div 64"
  shows "mw_bitNum m = 64 * nw" "2 \<le> nw" "0 \<le> n * nw"
    "n * nw + nw \<le> int (length (elems (mw_data m)))" "nWords (mw_bitNum m) 1 = nw"
    "int (length (elems (mw_data m))) < 2 ^ 63"
proof -
  from assms(1) have v: "64 < mw_bitNum m" "mw_bitNum m mod 64 = 0"
    by (auto simp: valid_Array_def wordBits_def)
  from assms(1) show "int (length (elems (mw_data m))) < 2 ^ 63"
    by (simp add: valid_Array_def len_buf_def)
  have "mw_bitNum m = 64 * (mw_bitNum m div 64) + mw_bitNum m mod 64" by simp
  then show b: "mw_bitNum m = 64 * nw" using v(2) by (simp add: nw_def)
  then show nw: "2 \<le> nw" using v(1) by linarith
  show "0 \<le> n * nw" using assms(2) nw by simp
  define L where "L = int (length (elems (mw_data m)))"
  have "n + 1 \<le> L div nw"
    using assms(3) by (simp add: multipleOfWordBitsArray_Len_def len_buf_def wordBits_def nw_def L_def)
  then have "(n + 1) * nw \<le> L div nw * nw" using nw by (intro mult_right_mono) auto
  also have "\<dots> \<le> L"
  proof -
    have "L = L div nw * nw + L mod nw" by simp
    moreover have "0 \<le> L mod nw" using nw by simp
    ultimately show ?thesis by linarith
  qed
  finally show "n * nw + nw \<le> int (length (elems (mw_data m)))" by (simp add: algebra_simps L_def)
  show "nWords (mw_bitNum m) 1 = nw" unfolding b by (simp add: nWords_def wordBits_def)
qed

lemma multipleOfWord_Get_Inr:
  assumes "valid_Array (MultipleOfWord m)" "0 \<le> n" "n < multipleOfWordBitsArray_Len m"
  shows "multipleOfWordBitsArray_Get m n
         = Inr \<lparr>v_data = take (nat (mw_bitNum m div 64))
                            (drop (nat (n * (mw_bitNum m div 64))) (elems (mw_data m))),
                 v_bitNum = mw_bitNum m\<rparr>"
proof -
  define nw where "nw = mw_bitNum m div 64"
  note f = multipleOfWord_facts [OF assms, folded nw_def]
  have nv: "NewVector (mw_bitNum m) = Some \<lparr>v_data = replicate (nat nw) 0, v_bitNum = mw_bitNum m\<rparr>"
    using f(1,2,5) by (simp add: NewVector_def)
  have sl: "slice_from (mw_data m) (n * nw) = Inr (drop (nat (n * nw)) (elems (mw_data m)))"
    using f(2,3,4) by (simp add: slice_from_def len_buf_def)
  have cp: "copy (replicate (nat nw) 0) (drop (nat (n * nw)) (elems (mw_data m)))
            = take (nat nw) (drop (nat (n * nw)) (elems (mw_data m)))"
    using f(2,3,4) by (simp add: copy_def)
  show ?thesis using assms(2,3) nv sl cp
    by (simp add: multipleOfWordBitsArray_Get_def Let_def wordBits_def nw_def[symmetric])
qed

lemma multipleOfWord_HD_Inr:
  assumes "valid_Array (MultipleOfWord m)" "0 \<le> n" "n < multipleOfWordBitsArray_Len m"
    and "valid_Vector v" "v_bitNum v = mw_bitNum m"
  shows "multipleOfWordBitsArray_HammingDistance m n v
         = Inr (xor_popcount (take (nat (mw_bitNum m div 64))
                            (drop (nat (n * (mw_bitNum m div 64))) (elems (mw_data m)))) (v_data v))"
proof -
  define nw where "nw = mw_bitNum m div 64"
  note f = multipleOfWord_facts [OF assms(1-3), folded nw_def]
  have lv: "int (length (v_data v)) = nw"
    using assms(4,5) f(5) by (simp add: valid_Vector_def)
  have w: "wrap64 (n * nw) = n * nw" using f(2,3,4,6) by (intro wrap64_id) auto
  have "multipleOfWordBitsArray_sum (elems (mw_data m)) (v_data v) (n * nw) 0 (nat nw) 0
        = Inr (0 + xor_popcount (take (nat nw) (drop (nat (n * nw + 0)) (elems (mw_data m))))
                 (drop (nat 0) (v_data v)))"
    using f(2,3,4,6) lv by (intro multipleOfWordBitsArray_sum_eq) auto
  then show ?thesis using assms(2,5)
    by (simp add: multipleOfWordBitsArray_HammingDistance_def Let_def wordBits_def nw_def[symmetric] w)
qed

lemma multipleOfWord_general_Get:
  assumes "valid_Array (MultipleOfWord m)" "0 \<le> n" "n < multipleOfWordBitsArray_Len m"
  shows "generalArray_Get (Save_view (MultipleOfWord m)) n = multipleOfWordBitsArray_Get m n"
proof -
  define nw where "nw = mw_bitNum m div 64"
  note f = multipleOfWord_facts [OF assms, folded nw_def]
  have l: "n * mw_bitNum m div 64 = n * nw" "n * mw_bitNum m mod 64 = 0"
    "(n * mw_bitNum m + mw_bitNum m) div 64 = n * nw + nw"
    "(n * mw_bitNum m + mw_bitNum m) mod 64 = 0"
    unfolding f(1) by simp_all
  have sl: "slice_from (mw_data m) (n * nw) = Inr (drop (nat (n * nw)) (elems (mw_data m)))"
    using f(2,3,4) by (simp add: slice_from_def len_buf_def)
  have cp: "copy (replicate (nat nw) 0) (drop (nat (n * nw)) (elems (mw_data m)))
            = take (nat nw) (drop (nat (n * nw)) (elems (mw_data m)))"
    using f(2,3,4) by (simp add: copy_def)
  have idx: "\<not> (n < 0 \<or> multipleOfWordBitsArray_Len m \<le> n)" using assms(2,3) by simp
  show ?thesis
    unfolding multipleOfWord_Get_Inr [OF assms]
    using idx l sl cp f(2,5)
    by (simp add: generalArray_Get_def Save_view_def Let_def wordBits_def generalArray_Get_aligned_def
        make_buf_def nw_def[symmetric])
qed

subsection \<open>generalArray: \<open>Get\<close> returns on every array that satisfies the capacity invariant\<close>

lemma length_copy [simp]: "length (copy dst src) = length dst"
  by (simp add: copy_def)

lemma set_in_Inr:
  "0 \<le> i \<Longrightarrow> i < int (length xs) \<Longrightarrow>
   set_in xs i off x k = Inr (xs[nat i := set_bits (xs ! nat i) off x k])"
  by (simp add: set_in_def at_def upd_def)

lemma nWords_pos: "0 < b \<Longrightarrow> 1 \<le> nWords b 1"
  by (simp add: nWords_def wordBits_def pos_imp_zdiv_pos_iff)

lemma nWords_two: "64 < b \<Longrightarrow> 2 \<le> nWords b 1"
proof -
  assume "64 < b"
  have "b + 63 = 64 * ((b + 63) div 64) + (b + 63) mod 64" by simp
  moreover have "(b + 63) mod 64 < 64" by simp
  ultimately have "2 \<le> (b + 63) div 64" using \<open>64 < b\<close> by linarith
  then show ?thesis by (simp add: nWords_def wordBits_def)
qed

lemma spliced_wide:
  fixes X b :: int
  assumes "X div 64 < (X + b) div 64" "64 < 64 - X mod 64 + (X + b) mod 64"
  shows "64 < b"
proof -
  have "X = 64 * (X div 64) + X mod 64" "X + b = 64 * ((X + b) div 64) + (X + b) mod 64"
    by simp_all
  then show ?thesis using assms by linarith
qed

lemma generalArray_Get_inWord_total:
  assumes "0 \<le> l" "l < len_buf (ga_data a)"
  shows "\<exists>x. generalArray_Get_inWord a lbit l = Inr x \<and> v_bitNum x = ga_bitNum a
          \<and> int (length (v_data x)) = 1"
  using assms by (simp add: generalArray_Get_inWord_def Let_def at_def len_buf_def)

lemma generalArray_Get_aligned_total:
  assumes "0 \<le> l" "l \<le> len_buf (ga_data a)" "0 < ga_bitNum a"
  shows "\<exists>x. generalArray_Get_aligned a rbit l = Inr x \<and> v_bitNum x = ga_bitNum a
          \<and> int (length (v_data x)) = nWords (ga_bitNum a) 1"
proof -
  have p: "1 \<le> nWords (ga_bitNum a) 1" using assms(3) by (rule nWords_pos)
  show ?thesis using assms p
    by (simp add: generalArray_Get_aligned_def Let_def slice_from_def make_buf_def at_def upd_def)
qed

lemma generalArray_Get_spliced_total:
  assumes "0 \<le> l" "l < r" "l < len_buf (ga_data a)" "r \<le> len_buf (ga_data a)"
    and "rbit mod 64 \<noteq> 0 \<Longrightarrow> r < len_buf (ga_data a)" "0 < ga_bitNum a"
    and "64 < 64 - lbit mod 64 + rbit mod 64 \<Longrightarrow> 64 < ga_bitNum a"
  shows "\<exists>x. generalArray_Get_spliced a lbit rbit l r = Inr x \<and> v_bitNum x = ga_bitNum a
          \<and> int (length (v_data x)) = nWords (ga_bitNum a) 1"
proof -
  define retLen where "retLen = nWords (ga_bitNum a) 1"
  have p: "1 \<le> retLen" using assms(6) unfolding retLen_def by (rule nWords_pos)
  have al: "at (elems (ga_data a)) l = Inr (elems (ga_data a) ! nat l)"
    using assms(1,3) by (simp add: at_def len_buf_def)
  have sl: "slice_range (ga_data a) (l + 1) r
            = Inr (take (nat (r - (l + 1))) (drop (nat (l + 1)) (elems (ga_data a) @ spare (ga_data a))))"
    using assms(1,2,4) by (simp add: slice_range_def cap_buf_def len_buf_def)
  show ?thesis
  proof (cases "rbit mod 64 = 0")
    case True
    then show ?thesis using al sl p
      by (simp add: generalArray_Get_spliced_def Let_def wordBits_def make_buf_def upd_def
          retLen_def[symmetric])
  next
    case False
    then have ar: "at (elems (ga_data a)) r = Inr (elems (ga_data a) ! nat r)"
      using assms(1,2,5) by (simp add: at_def len_buf_def)
    show ?thesis
    proof (cases "64 - lbit mod 64 + rbit mod 64 \<le> 64")
      case True
      then show ?thesis using False al ar sl p
        by (simp add: generalArray_Get_spliced_def Let_def wordBits_def make_buf_def set_in_Inr
            retLen_def[symmetric])
    next
      case c: False
      then have "64 < ga_bitNum a" using assms(7) by simp
      then have "2 \<le> retLen" unfolding retLen_def by (rule nWords_two)
      then show ?thesis using False c al ar sl
        by (simp add: generalArray_Get_spliced_def Let_def wordBits_def make_buf_def set_in_Inr
            retLen_def[symmetric])
    qed
  qed
qed


lemma generalArray_Get_total:
  assumes "0 < ga_bitNum a" "0 \<le> n" "n < ga_len a"
    and "nWords (ga_bitNum a) (ga_len a) \<le> len_buf (ga_data a)"
  shows "\<exists>x. generalArray_Get a n = Inr x \<and> v_bitNum x = ga_bitNum a
          \<and> int (length (v_data x)) = nWords (ga_bitNum a) 1"
proof -
  define b where "b = ga_bitNum a"
  define X where "X = n * b"
  define L where "L = len_buf (ga_data a)"
  note rb0 = row_bounds [OF assms(1-3) assms(4) [folded L_def], folded b_def]
  note rb = rb0 [folded X_def]
  have l0: "0 \<le> X div 64" using rb(1) by (simp add: pos_imp_zdiv_nonneg_iff)
  have lr: "X div 64 \<le> (X + b) div 64" using assms(1) by (intro zdiv_mono1) (auto simp: b_def)
  have idx: "\<not> (n < 0 \<or> ga_len a \<le> n)" using assms(2,3) by simp
  let ?c1 = "X div 64 = (X + b) div 64 \<or> (X div 64 + 1 = (X + b) div 64 \<and> (X + b) mod 64 = 0)"
  consider (one) ?c1 | (aligned) "\<not> ?c1" "X mod 64 = 0" | (spliced) "\<not> ?c1" "X mod 64 \<noteq> 0"
    by blast
  then show ?thesis
  proof cases
    case one
    have "\<exists>x. generalArray_Get_inWord a X (X div 64) = Inr x \<and> v_bitNum x = ga_bitNum a
          \<and> int (length (v_data x)) = 1"
      using l0 rb(2) by (intro generalArray_Get_inWord_total) (auto simp: L_def)
    moreover have "b \<le> 64"
    proof -
      have "X = 64 * (X div 64) + X mod 64" "X + b = 64 * ((X + b) div 64) + (X + b) mod 64"
        "0 \<le> X mod 64" "(X + b) mod 64 < 64" by simp_all
      then show ?thesis using one by linarith
    qed
    then have "nWords (ga_bitNum a) 1 = 1" using assms(1) by (simp add: nWords_small b_def)
    ultimately show ?thesis using idx one
      by (auto simp: generalArray_Get_def Let_def wordBits_def b_def[symmetric] X_def[symmetric])
  next
    case aligned
    have "\<exists>x. generalArray_Get_aligned a (X + b) (X div 64) = Inr x \<and> v_bitNum x = ga_bitNum a
          \<and> int (length (v_data x)) = nWords (ga_bitNum a) 1"
      using l0 rb(2) assms(1) by (intro generalArray_Get_aligned_total) (auto simp: L_def)
    then show ?thesis using idx aligned
      by (auto simp: generalArray_Get_def Let_def wordBits_def b_def[symmetric] X_def[symmetric])
  next
    case spliced
    have lt: "X div 64 < (X + b) div 64" using spliced(1) lr by auto
    have "\<exists>x. generalArray_Get_spliced a X (X + b) (X div 64) ((X + b) div 64) = Inr x
          \<and> v_bitNum x = ga_bitNum a \<and> int (length (v_data x)) = nWords (ga_bitNum a) 1"
    proof (rule generalArray_Get_spliced_total)
      show "0 \<le> X div 64" by (rule l0)
      show "X div 64 < (X + b) div 64" by (rule lt)
      show "X div 64 < len_buf (ga_data a)" using rb(2) by (simp add: L_def)
      show "(X + b) div 64 \<le> len_buf (ga_data a)" using rb(3) by (simp add: L_def)
      show "(X + b) mod 64 \<noteq> 0 \<Longrightarrow> (X + b) div 64 < len_buf (ga_data a)"
        using rb(4) by (simp add: L_def)
      show "0 < ga_bitNum a" by (rule assms(1))
      show "64 < 64 - X mod 64 + (X + b) mod 64 \<Longrightarrow> 64 < ga_bitNum a"
        using spliced_wide [OF lt] by (simp add: b_def)
    qed
    then show ?thesis using idx spliced
      by (auto simp: generalArray_Get_def Let_def wordBits_def b_def[symmetric] X_def[symmetric])
  qed
qed

section \<open>The distance is the population count of the exclusive or\<close>

lemma Save_view_bitNum: "ga_bitNum (Save_view a) = Array_BitNum a"
  by (cases a) (simp_all add: Save_view_def Array_BitNum_def generalArray_BitNum_def
      smallBitsArray_BitNum_def wordArray_BitNum_def smallPowerOfTwoBitsArray_BitNum_def
      multipleOfWordBitsArray_BitNum_def)

lemma Save_view_len: "ga_len (Save_view a) = Array_Len a"
  by (cases a) (simp_all add: Save_view_def Array_Len_def generalArray_Len_def
      smallBitsArray_Len_def wordArray_Len_def smallPowerOfTwoBitsArray_Len_def)

lemma generalArray_HammingDistance_view:
  assumes "v_bitNum v = Array_BitNum a" "generalArray_Get (Save_view a) n = Inr x"
  shows "generalArray_HammingDistance (Save_view a) n v = Inr (xor_popcount (v_data x) (v_data v))"
  using assms by (simp add: generalArray_HammingDistance_def HammingDistance_def Save_view_bitNum)

lemma Array_Get_HammingDistance:
  assumes "valid_Array a" "valid_Vector v" "v_bitNum v = Array_BitNum a"
    and "0 \<le> n" "n < Array_Len a"
  shows "\<exists>x. Array_Get a n = Inr x
           \<and> Array_HammingDistance a n v = Inr (xor_popcount (v_data x) (v_data v))
           \<and> generalArray_Get (Save_view a) n = Inr x"
proof (cases a)
  case (General g)
  from assms General have "\<exists>x. generalArray_Get g n = Inr x \<and> v_bitNum x = ga_bitNum g
          \<and> int (length (v_data x)) = nWords (ga_bitNum g) 1"
    by (intro generalArray_Get_total)
       (auto simp: valid_Array_def wordBits_def Array_Len_def generalArray_Len_def)
  then obtain x where x: "generalArray_Get g n = Inr x" by blast
  then show ?thesis using General assms(3)
    by (simp add: Array_Get_def Array_HammingDistance_def Save_view_def
        generalArray_HammingDistance_def HammingDistance_def Array_BitNum_def generalArray_BitNum_def)
next
  case (SmallBits s)
  from assms SmallBits have n: "n < smallBitsArray_Len s" and va: "valid_Array (SmallBits s)"
    and b: "0 < ga_bitNum (ga s)" "ga_bitNum (ga s) < 64"
    and w: "smallBitsArray_BitNum s = v_bitNum v"
    by (auto simp: Array_Len_def valid_Array_def wordBits_def Array_BitNum_def)
  from smallBits_get_total [OF va assms(4) n] obtain x where x: "smallBitsArray_get s n = Inr x"
    by blast
  from assms(2) w b obtain y where y: "v_data v = [y]"
    by (auto elim!: valid_Vector_small simp: smallBitsArray_BitNum_def generalArray_BitNum_def)
  have G: "smallBitsArray_Get s n = Inr \<lparr>v_data = [x], v_bitNum = ga_bitNum (ga s)\<rparr>"
    using x b by (simp add: smallBitsArray_Get_def vector_of_word_small)
  have H: "smallBitsArray_HammingDistance s n v = Inr (bitcount (x XOR y))"
    using smallBits_HD_get [OF y w, of n] x by simp
  show ?thesis using SmallBits G H y smallBits_general_Get [OF va assms(4) n]
    by (simp add: Array_Get_def Array_HammingDistance_def Save_view_def)
next
  case (WordArr w)
  from assms WordArr have n: "n < wordArray_Len w" and wd: "v_bitNum v = 64"
    by (auto simp: Array_Len_def Array_BitNum_def wordArray_BitNum_def wordBits_def)
  show ?thesis
    using WordArr wordArray_Get_Inr [OF assms(4) n] wordArray_HD_Inr [OF assms(4) n wd assms(2)]
      wordArray_general_Get [OF assms(4) n]
    by (simp add: Array_Get_def Array_HammingDistance_def)
next
  case (SmallPowerOfTwo p)
  from assms SmallPowerOfTwo have n: "n < p2_len p" and va: "valid_Array (SmallPowerOfTwo p)"
    and w: "v_bitNum v = p2_bitNum p"
    by (auto simp: Array_Len_def Array_BitNum_def smallPowerOfTwoBitsArray_Len_def
        smallPowerOfTwoBitsArray_BitNum_def)
  show ?thesis
    using SmallPowerOfTwo pow2_Get_Inr [OF va assms(4) n] pow2_HD_Inr [OF va assms(4) n assms(2) w]
      pow2_general_Get [OF va assms(4) n]
    by (simp add: Array_Get_def Array_HammingDistance_def)
next
  case (MultipleOfWord m)
  from assms MultipleOfWord have n: "n < multipleOfWordBitsArray_Len m"
    and va: "valid_Array (MultipleOfWord m)" and w: "v_bitNum v = mw_bitNum m"
    by (auto simp: Array_Len_def Array_BitNum_def multipleOfWordBitsArray_BitNum_def)
  show ?thesis
    using MultipleOfWord multipleOfWord_Get_Inr [OF va assms(4) n]
      multipleOfWord_HD_Inr [OF va assms(4) n assms(2) w]
      multipleOfWord_general_Get [OF va assms(4) n]
    by (simp add: Array_Get_def Array_HammingDistance_def)
qed

text \<open>
  C3. On every well-formed array of every specialization, for every index in \<open>[0, len)\<close>
  and every well-formed vector of the array's width, \<open>Get\<close> returns a vector \<open>x\<close>, the
  distance is the population count of \<open>x XOR v\<close>, and both agree with the general-packed
  algorithm run on the same words, width and length (the \<open>generalArray\<close> that \<open>Save\<close>
  builds from the receiver).
\<close>

theorem HammingDistance_is_popcount_of_xor:
  assumes "valid_Array a" "valid_Vector v" "v_bitNum v = Array_BitNum a"
    and "0 \<le> n" "n < Array_Len a"
  shows "\<exists>x. Array_Get a n = Inr x
           \<and> Array_HammingDistance a n v = Inr (xor_popcount (v_data x) (v_data v))
           \<and> generalArray_Get (Save_view a) n = Inr x
           \<and> generalArray_HammingDistance (Save_view a) n v = Array_HammingDistance a n v"
proof -
  from Array_Get_HammingDistance [OF assms] obtain x where
    x: "Array_Get a n = Inr x"
       "Array_HammingDistance a n v = Inr (xor_popcount (v_data x) (v_data v))"
       "generalArray_Get (Save_view a) n = Inr x"
    by blast
  from generalArray_HammingDistance_view [OF assms(3) x(3)] x show ?thesis by simp
qed

theorem HammingDistance_is_popcount_of_xor_witness:
  "\<exists>x. Array_Get (SmallBits \<lparr>ga = \<lparr>ga_data = \<lparr>elems = [0x1F6E, 0], spare = []\<rparr>, ga_bitNum = 7, ga_len = 10\<rparr>\<rparr>) 1 = Inr x
      \<and> Array_HammingDistance (SmallBits \<lparr>ga = \<lparr>ga_data = \<lparr>elems = [0x1F6E, 0], spare = []\<rparr>, ga_bitNum = 7, ga_len = 10\<rparr>\<rparr>) 1
            \<lparr>v_data = [0x3C], v_bitNum = 7\<rparr>
          = Inr (xor_popcount (v_data x) (v_data \<lparr>v_data = [0x3C], v_bitNum = 7\<rparr>))
      \<and> generalArray_Get (Save_view (SmallBits \<lparr>ga = \<lparr>ga_data = \<lparr>elems = [0x1F6E, 0], spare = []\<rparr>, ga_bitNum = 7, ga_len = 10\<rparr>\<rparr>)) 1 = Inr x
      \<and> generalArray_HammingDistance (Save_view (SmallBits \<lparr>ga = \<lparr>ga_data = \<lparr>elems = [0x1F6E, 0], spare = []\<rparr>, ga_bitNum = 7, ga_len = 10\<rparr>\<rparr>)) 1
            \<lparr>v_data = [0x3C], v_bitNum = 7\<rparr>
          = Array_HammingDistance (SmallBits \<lparr>ga = \<lparr>ga_data = \<lparr>elems = [0x1F6E, 0], spare = []\<rparr>, ga_bitNum = 7, ga_len = 10\<rparr>\<rparr>) 1
            \<lparr>v_data = [0x3C], v_bitNum = 7\<rparr>"
proof (rule HammingDistance_is_popcount_of_xor)
  show "valid_Array (SmallBits \<lparr>ga = \<lparr>ga_data = \<lparr>elems = [0x1F6E, 0], spare = []\<rparr>, ga_bitNum = 7, ga_len = 10\<rparr>\<rparr>)"
    by (simp add: valid_Array_def wordBits_def nWords_def len_buf_def)
  show "valid_Vector \<lparr>v_data = [0x3C], v_bitNum = 7\<rparr>"
    by (simp add: valid_Vector_def wordBits_def nWords_def leastBits_def mask_eq_exp_minus_1)
  show "v_bitNum \<lparr>v_data = [0x3C], v_bitNum = 7\<rparr>
        = Array_BitNum (SmallBits \<lparr>ga = \<lparr>ga_data = \<lparr>elems = [0x1F6E, 0], spare = []\<rparr>, ga_bitNum = 7, ga_len = 10\<rparr>\<rparr>)"
    by (simp add: Array_BitNum_def smallBitsArray_BitNum_def generalArray_BitNum_def)
  show "(0::int) \<le> 1" by simp
  show "1 < Array_Len (SmallBits \<lparr>ga = \<lparr>ga_data = \<lparr>elems = [0x1F6E, 0], spare = []\<rparr>, ga_bitNum = 7, ga_len = 10\<rparr>\<rparr>)"
    by (simp add: Array_Len_def smallBitsArray_Len_def generalArray_Len_def)
qed

section \<open>Saving and loading\<close>

lemma slice_range_elems:
  assumes "0 \<le> lo" "lo \<le> hi" "hi \<le> len_buf b"
  shows "slice_range b lo hi = Inr (take (nat (hi - lo)) (drop (nat lo) (elems b)))"
  using assms by (simp add: slice_range_def cap_buf_def len_buf_def)

lemma Array_Get_out_of_range:
  assumes "i < 0 \<or> Array_Len a \<le> i"
  shows "Array_Get a i = Inl (IndexOutOfRange i)"
  using assms
  by (cases a)
     (auto simp: Array_Get_def Array_Len_def generalArray_Get_def generalArray_Len_def
        smallBitsArray_Get_def smallBitsArray_get_def smallBitsArray_Len_def wordArray_Get_def
        smallPowerOfTwoBitsArray_Get_def smallPowerOfTwoBitsArray_Len_def
        multipleOfWordBitsArray_Get_def)

lemma generalArray_Get_spliced_cong:
  assumes "elems (ga_data a') = elems (ga_data a)" "ga_bitNum a' = ga_bitNum a"
    and "0 \<le> l" "l < r" "r \<le> len_buf (ga_data a)"
  shows "generalArray_Get_spliced a' lbit rbit l r = generalArray_Get_spliced a lbit rbit l r"
proof -
  have l': "len_buf (ga_data a') = len_buf (ga_data a)" using assms(1) by (simp add: len_buf_def)
  have "slice_range (ga_data a') (l + 1) r = slice_range (ga_data a) (l + 1) r"
    using assms by (simp add: slice_range_elems l')
  then show ?thesis using assms(1,2)
    by (simp add: generalArray_Get_spliced_def cong: if_cong)
qed

lemma generalArray_Get_cong:
  assumes "elems (ga_data a') = elems (ga_data a)" "ga_bitNum a' = ga_bitNum a"
    "ga_len a' = ga_len a"
    and "0 < ga_bitNum a" "nWords (ga_bitNum a) (ga_len a) \<le> len_buf (ga_data a)"
  shows "generalArray_Get a' n = generalArray_Get a n"
proof (cases "n < 0 \<or> ga_len a \<le> n")
  case True
  then show ?thesis using assms(3) by (auto simp: generalArray_Get_def)
next
  case False
  then have n: "0 \<le> n" "n < ga_len a" by auto
  define b where "b = ga_bitNum a"
  define X where "X = n * b"
  note rb0 = row_bounds [OF assms(4) n assms(5), folded b_def]
  note rb = rb0 [folded X_def]
  have l0: "0 \<le> X div 64" using rb(1) by (simp add: pos_imp_zdiv_nonneg_iff)
  have lr: "X div 64 \<le> (X + b) div 64" using assms(4) by (intro zdiv_mono1) (auto simp: b_def)
  have i: "generalArray_Get_inWord a' X (X div 64) = generalArray_Get_inWord a X (X div 64)"
    using assms(1,2) by (simp add: generalArray_Get_inWord_def cong: if_cong)
  have al: "generalArray_Get_aligned a' (X + b) (X div 64) = generalArray_Get_aligned a (X + b) (X div 64)"
    using assms(1,2) by (simp add: generalArray_Get_aligned_def slice_from_def len_buf_def cong: if_cong)
  have sp: "X div 64 \<noteq> (X + b) div 64 \<Longrightarrow>
    generalArray_Get_spliced a' X (X + b) (X div 64) ((X + b) div 64)
    = generalArray_Get_spliced a X (X + b) (X div 64) ((X + b) div 64)"
    using lr l0 rb(3) by (intro generalArray_Get_spliced_cong assms(1,2)) auto
  show ?thesis using False assms(2,3) i al sp
    by (auto simp: generalArray_Get_def Let_def wordBits_def b_def[symmetric] X_def[symmetric])
qed

lemma Array_Save_eq: "Array_Save enc a = 1 # enc (saved_record a)"
  by (simp add: Array_Save_def generalArray_Save_def saved_record_def arrayFormatVersion_def)

lemma createArray_roundtrip:
  assumes "valid_Array a" "elems d' = elems (ga_data (Save_view a))"
  shows "\<exists>a'. createArray d' (Array_BitNum a) (Array_Len a) = Some a'
            \<and> Array_Len a' = Array_Len a \<and> Array_BitNum a' = Array_BitNum a
            \<and> (\<forall>i. Array_Get a' i = Array_Get a i) \<and> valid_Array a'"
proof (cases a)
  case (General g)
  with assms have v: "64 < ga_bitNum g" "ga_bitNum g mod 64 \<noteq> 0" "0 \<le> ga_len g"
    "nWords (ga_bitNum g) (ga_len g) \<le> len_buf (ga_data g)" and e: "elems d' = elems (ga_data g)"
    by (auto simp: valid_Array_def wordBits_def Save_view_def)
  define g' where "g' = \<lparr>ga_data = d', ga_bitNum = ga_bitNum g, ga_len = ga_len g\<rparr>"
  have c: "createArray d' (Array_BitNum a) (Array_Len a) = Some (General g')"
    using General v
    by (simp add: createArray_def Array_BitNum_def Array_Len_def generalArray_BitNum_def
        generalArray_Len_def wordBits_def g'_def)
  have "valid_Array (General g')"
    using v e by (simp add: valid_Array_def wordBits_def g'_def len_buf_def)
  moreover have "generalArray_Get g' i = generalArray_Get g i" for i
    using v e by (intro generalArray_Get_cong) (auto simp: g'_def)
  ultimately show ?thesis using c General
    by (simp add: Array_Get_def Array_Len_def Array_BitNum_def generalArray_BitNum_def
        generalArray_Len_def g'_def)
next
  case (SmallBits s)
  with assms have v: "0 < ga_bitNum (ga s)" "ga_bitNum (ga s) < 64" "0 \<le> ga_len (ga s)"
    "nWords (ga_bitNum (ga s)) (ga_len (ga s)) \<le> len_buf (ga_data (ga s))"
    and e: "elems d' = elems (ga_data (ga s))"
    by (auto simp: valid_Array_def wordBits_def Save_view_def)
  define s' where "s' = \<lparr>ga = \<lparr>ga_data = d', ga_bitNum = ga_bitNum (ga s), ga_len = ga_len (ga s)\<rparr>\<rparr>"
  have c: "createArray d' (Array_BitNum a) (Array_Len a) = Some (SmallBits s')"
    using SmallBits v
    by (simp add: createArray_def Array_BitNum_def Array_Len_def smallBitsArray_BitNum_def
        smallBitsArray_Len_def generalArray_BitNum_def generalArray_Len_def wordBits_def s'_def
        xor_pred_nonzero)
  have "valid_Array (SmallBits s')"
    using v e by (simp add: valid_Array_def wordBits_def s'_def len_buf_def)
  moreover have "smallBitsArray_Get s' i = smallBitsArray_Get s i" for i
    using e
    by (simp add: smallBitsArray_Get_def smallBitsArray_get_def smallBitsArray_BitNum_def
        smallBitsArray_Len_def generalArray_BitNum_def generalArray_Len_def s'_def cong: if_cong)
  ultimately show ?thesis using c SmallBits
    by (simp add: Array_Get_def Array_Len_def Array_BitNum_def smallBitsArray_BitNum_def
        smallBitsArray_Len_def generalArray_BitNum_def generalArray_Len_def s'_def)
next
  case (WordArr w)
  with assms have e: "elems d' = elems (wa_data w)"
    by (auto simp: Save_view_def)
  define w' where "w' = \<lparr>wa_data = d'\<rparr>"
  have l: "wordArray_Len w' = wordArray_Len w"
    using e by (simp add: wordArray_Len_def len_buf_def w'_def)
  have c: "createArray d' (Array_BitNum a) (Array_Len a) = Some (WordArr w')"
    using WordArr
    by (simp add: createArray_def Array_BitNum_def Array_Len_def wordArray_BitNum_def
        wordArray_Len_def wordBits_def w'_def len_buf_def)
  have "wordArray_Get w' i = wordArray_Get w i" for i
  proof (cases "0 \<le> i \<and> i < wordArray_Len w")
    case True
    then show ?thesis
      using wordArray_Get_Inr [of i w] wordArray_Get_Inr [of i w'] l e by (simp add: w'_def)
  next
    case False
    then show ?thesis using l by (auto simp: wordArray_Get_def)
  qed
  then show ?thesis using c WordArr l
    by (simp add: Array_Get_def Array_Len_def Array_BitNum_def wordArray_BitNum_def
        valid_Array_def)
next
  case (SmallPowerOfTwo p)
  with assms have v: "p2_bitNum p \<in> {1, 2, 4, 8, 16, 32}" "0 \<le> p2_len p"
    "nWords (p2_bitNum p) (p2_len p) \<le> len_buf (p2_data p)" and e: "elems d' = elems (p2_data p)"
    and va: "valid_Array (SmallPowerOfTwo p)"
    by (auto simp: valid_Array_def Save_view_def)
  then have b: "0 < p2_bitNum p" "p2_bitNum p < 64" by auto
  define s' where "s' = \<lparr>ga = \<lparr>ga_data = d', ga_bitNum = p2_bitNum p, ga_len = p2_len p\<rparr>\<rparr>"
  define s where "s = \<lparr>ga = \<lparr>ga_data = p2_data p, ga_bitNum = p2_bitNum p, ga_len = p2_len p\<rparr>\<rparr>"
  have c: "createArray d' (Array_BitNum a) (Array_Len a) = Some (SmallBits s')"
    using SmallPowerOfTwo v(2) b
    by (simp add: createArray_def Array_BitNum_def Array_Len_def smallPowerOfTwoBitsArray_BitNum_def
        smallPowerOfTwoBitsArray_Len_def wordBits_def s'_def xor_pred_nonzero)
  have vs: "valid_Array (SmallBits s)"
    using v b by (simp add: valid_Array_def s_def wordBits_def)
  have ss: "smallBitsArray_Get s' i = smallBitsArray_Get s i" for i
    using e
    by (simp add: smallBitsArray_Get_def smallBitsArray_get_def smallBitsArray_BitNum_def
        smallBitsArray_Len_def generalArray_BitNum_def generalArray_Len_def s'_def s_def cong: if_cong)
  have "smallBitsArray_Get s i = smallPowerOfTwoBitsArray_Get p i" for i
  proof (cases "0 \<le> i \<and> i < p2_len p")
    case True
    then have "generalArray_Get (ga s) i = smallBitsArray_Get s i"
      by (intro smallBits_general_Get [OF vs]) (auto simp: smallBitsArray_Len_def generalArray_Len_def s_def)
    moreover have "generalArray_Get (Save_view (SmallPowerOfTwo p)) i = smallPowerOfTwoBitsArray_Get p i"
      using True by (intro pow2_general_Get [OF va]) auto
    ultimately show ?thesis by (simp add: Save_view_def s_def)
  next
    case False
    then show ?thesis
      by (auto simp: smallBitsArray_Get_def smallBitsArray_get_def smallBitsArray_Len_def
          generalArray_Len_def smallPowerOfTwoBitsArray_Get_def smallPowerOfTwoBitsArray_Len_def s_def)
  qed
  moreover have "valid_Array (SmallBits s')"
    using v b e by (simp add: valid_Array_def wordBits_def s'_def len_buf_def)
  ultimately show ?thesis using c SmallPowerOfTwo ss
    by (simp add: Array_Get_def Array_Len_def Array_BitNum_def smallBitsArray_BitNum_def
        smallBitsArray_Len_def generalArray_BitNum_def generalArray_Len_def s'_def
        smallPowerOfTwoBitsArray_BitNum_def smallPowerOfTwoBitsArray_Len_def)
next
  case (MultipleOfWord m)
  with assms have v: "64 < mw_bitNum m" "mw_bitNum m mod 64 = 0"
    "len_buf (mw_data m) mod (mw_bitNum m div 64) = 0" "len_buf (mw_data m) < 2 ^ 63"
    and e: "elems d' = elems (mw_data m)"
    by (auto simp: valid_Array_def wordBits_def Save_view_def)
  define m' where "m' = \<lparr>mw_data = d', mw_bitNum = mw_bitNum m\<rparr>"
  have l: "multipleOfWordBitsArray_Len m' = multipleOfWordBitsArray_Len m"
    using e by (simp add: multipleOfWordBitsArray_Len_def len_buf_def m'_def)
  have "mw_bitNum m = 64 * (mw_bitNum m div 64) + mw_bitNum m mod 64" by simp
  then have nw: "0 < mw_bitNum m div 64" using v by linarith
  then have l0: "0 \<le> multipleOfWordBitsArray_Len m"
    by (simp add: multipleOfWordBitsArray_Len_def len_buf_def wordBits_def pos_imp_zdiv_nonneg_iff)
  have c: "createArray d' (Array_BitNum a) (Array_Len a) = Some (MultipleOfWord m')"
    using MultipleOfWord v l0
    by (simp add: createArray_def Array_BitNum_def Array_Len_def multipleOfWordBitsArray_BitNum_def
        wordBits_def m'_def)
  have sf: "slice_from d' k = slice_from (mw_data m) k" for k
    using e by (simp add: slice_from_def len_buf_def)
  have "multipleOfWordBitsArray_Get m' i = multipleOfWordBitsArray_Get m i" for i
    using l
    by (simp add: multipleOfWordBitsArray_Get_def sf m'_def cong: if_cong option.case_cong)
  moreover have "valid_Array (MultipleOfWord m')"
    using v e by (simp add: valid_Array_def wordBits_def m'_def len_buf_def)
  ultimately show ?thesis using c MultipleOfWord l
    by (simp add: Array_Get_def Array_Len_def Array_BitNum_def multipleOfWordBitsArray_BitNum_def
        m'_def)
qed


text \<open>
  C6. Loading what \<open>Save\<close> wrote gives an array of the same length and width whose \<open>Get\<close>
  agrees with the saved array's at every index (an element inside the length, the same
  IndexOutOfRange error outside), for every well-formed array of every specialization,
  given that the decoder returns the words, the width and the length that the encoder
  was given. A power-of-two-packed array is loaded as a small general-packed one, which
  reads the same elements.
\<close>

theorem LoadArray_Save_roundtrip:
  assumes "valid_Array a"
    and "dec (enc (saved_record a)) = Some (r', rest)"
    and "same_record (saved_record a) r'"
  shows "\<exists>a'. LoadArray dec (Array_Save enc a) = Inr (Some a')
            \<and> Array_Len a' = Array_Len a \<and> Array_BitNum a' = Array_BitNum a
            \<and> (\<forall>i. Array_Get a' i = Array_Get a i)"
proof -
  from assms(3) have r: "elems (Data r') = elems (ga_data (Save_view a))"
    "BitNum r' = Array_BitNum a" "Len r' = Array_Len a"
    by (simp_all add: same_record_def saved_record_def Save_view_bitNum Save_view_len)
  have "LoadArray dec (Array_Save enc a) = Inr (createArray (Data r') (Array_BitNum a) (Array_Len a))"
    using assms(2) r(2,3) by (simp add: Array_Save_eq LoadArray_def loadArrayFormatV1_def)
  then show ?thesis using createArray_roundtrip [OF assms(1) r(1)] by auto
qed

theorem LoadArray_Save_roundtrip_witness:
  "\<exists>a'. LoadArray (\<lambda>bs. Some (\<lparr>Data = \<lparr>elems = [0x0403020100], spare = [0, 0]\<rparr>, BitNum = 8, Len = 5\<rparr>, drop 3 bs))
            (Array_Save (\<lambda>r. [0x93, 0x08, 0x05])
               (SmallPowerOfTwo \<lparr>p2_data = \<lparr>elems = [0x0403020100], spare = []\<rparr>, p2_bitNum = 8, p2_len = 5\<rparr>))
          = Inr (Some a')
      \<and> Array_Len a' = Array_Len (SmallPowerOfTwo \<lparr>p2_data = \<lparr>elems = [0x0403020100], spare = []\<rparr>, p2_bitNum = 8, p2_len = 5\<rparr>)
      \<and> Array_BitNum a' = Array_BitNum (SmallPowerOfTwo \<lparr>p2_data = \<lparr>elems = [0x0403020100], spare = []\<rparr>, p2_bitNum = 8, p2_len = 5\<rparr>)
      \<and> (\<forall>i. Array_Get a' i = Array_Get (SmallPowerOfTwo \<lparr>p2_data = \<lparr>elems = [0x0403020100], spare = []\<rparr>, p2_bitNum = 8, p2_len = 5\<rparr>) i)"
proof (rule LoadArray_Save_roundtrip)
  show "valid_Array (SmallPowerOfTwo \<lparr>p2_data = \<lparr>elems = [0x0403020100], spare = []\<rparr>, p2_bitNum = 8, p2_len = 5\<rparr>)"
    by (simp add: valid_Array_def nWords_def wordBits_def len_buf_def)
  show "(\<lambda>bs. Some (\<lparr>Data = \<lparr>elems = [0x0403020100], spare = [0, 0]\<rparr>, BitNum = 8, Len = 5\<rparr>, drop 3 bs))
          ((\<lambda>r. [0x93, 0x08, 0x05])
             (saved_record (SmallPowerOfTwo \<lparr>p2_data = \<lparr>elems = [0x0403020100], spare = []\<rparr>, p2_bitNum = 8, p2_len = 5\<rparr>)))
        = Some (\<lparr>Data = \<lparr>elems = [0x0403020100], spare = [0, 0]\<rparr>, BitNum = 8, Len = 5\<rparr>, [])"
    by simp
  show "same_record
          (saved_record (SmallPowerOfTwo \<lparr>p2_data = \<lparr>elems = [0x0403020100], spare = []\<rparr>, p2_bitNum = 8, p2_len = 5\<rparr>))
          \<lparr>Data = \<lparr>elems = [0x0403020100], spare = [0, 0]\<rparr>, BitNum = 8, Len = 5\<rparr>"
    by (simp add: same_record_def saved_record_def Save_view_def)
qed

section \<open>Growing an array\<close>

subsection \<open>Reading through the general layout after zero words were appended\<close>

lemma copy_zeros_append:
  "copy (replicate r 0) (src @ replicate k (0::word64)) = copy (replicate r 0) src"
proof (rule nth_equalityI)
  show "length (copy (replicate r 0) (src @ replicate k (0::word64))) = length (copy (replicate r 0) src)"
    by simp
next
  fix i assume "i < length (copy (replicate r 0) (src @ replicate k (0::word64)))"
  then have i: "i < r" by simp
  then show "copy (replicate r 0) (src @ replicate k (0::word64)) ! i = copy (replicate r 0) src ! i"
    by (auto simp: copy_def nth_append)
qed

lemma copy_zeros_zeros [simp]: "copy (replicate r 0) (replicate k (0::word64)) = replicate r 0"
  using copy_zeros_append [of r "[]" k] by simp


















lemma shr_zero [simp]: "shr 0 k = 0"
  by (simp add: shr_def)






subsection \<open>What \<open>Resize\<close> does to the buffer\<close>
















subsection \<open>Growth, specialization by specialization\<close>





lemma zero_Vector_64 [simp]: "zero_Vector 64 = \<lparr>v_data = [0], v_bitNum = 64\<rparr>"
  by (simp add: zero_Vector_def nWords_def wordBits_def)



subsection \<open>Growth keeps the elements and exposes zeros\<close>





section \<open>The index: extension, insertion and the invariant\<close>

subsection \<open>\<open>Resize\<close> sets the length\<close>





subsection \<open>The sketch of a feature vector has the width asked for\<close>

lemma randomProjection_add_length [simp]:
  "length (randomProjection_add ops dim x proj) = length proj"
  by (simp add: randomProjection_add_def)

lemma randomProjection_loop_length [simp]:
  "length (randomProjection_loop ops v proj) = length proj"
  by (induction ops v proj rule: randomProjection_loop.induct) simp_all

lemma randomProjection_length [simp]:
  "length (randomProjection ops v hashNum) = nat hashNum"
  by (simp add: randomProjection_def)

lemma push_bit_one_below_mask:
  assumes "m < j"
  shows "push_bit m (1 :: word64) AND NOT (mask j) = 0"
  using assms by (intro bit_word_eqI) (auto simp: bit_simps)

lemma valid_Vector_zero:
  assumes "0 < b"
  shows "valid_Vector \<lparr>v_data = replicate (nat (nWords b 1)) 0, v_bitNum = b\<rparr>"
proof -
  have "1 \<le> nWords b 1" using assms by (rule nWords_pos)
  then show ?thesis using assms by (simp add: valid_Vector_def last_replicate)
qed

lemma Vector_Set_valid:
  assumes "valid_Vector v"
  shows "valid_Vector (Vector_Set v i) \<and> v_bitNum (Vector_Set v i) = v_bitNum v"
proof (cases "0 \<le> i \<and> i < v_bitNum v \<and> i div 64 < int (length (v_data v))")
  case False
  then have "Vector_Set v i = v" unfolding Vector_Set_def by (rule if_not_P)
  then show ?thesis using assms by simp
next
  case True
  define b where "b = v_bitNum v"
  define d where "d = v_data v"
  define k where "k = nat (i div 64)"
  define w' where "w' = d ! k OR shl 1 (i mod 64)"
  from assms have v: "0 < b" "int (length d) = nWords b 1"
    "b mod 64 \<noteq> 0 \<Longrightarrow> last d AND NOT (mask (nat (b mod 64))) = 0"
    by (auto simp: valid_Vector_def b_def d_def wordBits_def leastBits_def)
  have k: "k < length d" "0 \<le> i div 64" using True by (auto simp: k_def d_def pos_imp_zdiv_nonneg_iff)
  have S: "Vector_Set v i = \<lparr>v_data = d[k := w'], v_bitNum = b\<rparr>"
    using True by (simp add: Vector_Set_def d_def k_def w'_def b_def)
  have "last (d[k := w']) AND NOT (mask (nat (b mod 64))) = 0" if m: "b mod 64 \<noteq> 0"
  proof (cases "k = length d - 1")
    case False
    moreover have "d \<noteq> []" using k(1) by auto
    ultimately show ?thesis using v(3) [OF m] by (simp add: last_list_update)
  next
    case kl: True
    have "d \<noteq> []" using k(1) by auto
    then have l: "last (d[k := w']) = w'" using kl by (simp add: last_list_update)
    have "d ! k = last d" using \<open>d \<noteq> []\<close> kl by (simp add: last_conv_nth)
    then have dk: "d ! k AND NOT (mask (nat (b mod 64))) = 0" using v(3) [OF m] by simp
    have "int k = nWords b 1 - 1" using kl k(1) v(2) by simp
    then have kb: "i div 64 = (b + 63) div 64 - 1" using k(2) by (simp add: k_def nWords_def wordBits_def)
    have e: "b + 63 = 64 * ((b + 63) div 64) + (b + 63) mod 64" "i = 64 * (i div 64) + i mod 64"
      "b = 64 * (b div 64) + b mod 64" by simp_all
    have r: "0 \<le> (b + 63) mod 64" "(b + 63) mod 64 < 64" "0 \<le> i mod 64" "i mod 64 < 64"
      "0 \<le> b mod 64" "b mod 64 < 64" by simp_all
    define q where "q = (b + 63) div 64"
    define qb where "qb = b div 64"
    define mi where "mi = i mod 64"
    define mb where "mb = b mod 64"
    define m63 where "m63 = (b + 63) mod 64"
    have "qb = q - 1"
      using e(1,3) r m unfolding q_def[symmetric] qb_def[symmetric] mb_def[symmetric] m63_def[symmetric]
      by arith
    moreover have "i < b" using True by (simp add: b_def)
    ultimately have "mi < mb"
      using e(2,3) kb unfolding q_def[symmetric] qb_def[symmetric] mb_def[symmetric] mi_def[symmetric]
      by simp
    then have "nat (i mod 64) < nat (b mod 64)" using r by (simp add: mi_def mb_def)
    then have "push_bit (nat (i mod 64)) (1 :: word64) AND NOT (mask (nat (b mod 64))) = 0"
      by (rule push_bit_one_below_mask)
    then have "w' AND NOT (mask (nat (b mod 64))) = 0"
      using dk r by (simp add: w'_def shl_def bit.conj_disj_distrib2)
    then show ?thesis by (simp add: l)
  qed
  then show ?thesis using v(1,2) unfolding S
    by (simp add: valid_Vector_def wordBits_def leastBits_def b_def[symmetric])
qed

lemma binarize_loop_valid:
  assumes "valid_Vector ret"
  shows "valid_Vector (binarize_loop ops proj i ret) \<and> v_bitNum (binarize_loop ops proj i ret) = v_bitNum ret"
  using assms
proof (induction proj arbitrary: i ret)
  case Nil
  then show ?case by simp
next
  case (Cons x proj)
  show ?case using Cons.IH [of "Vector_Set ret i" "i + 1"] Cons.IH [of ret "i + 1"]
      Vector_Set_valid [OF Cons.prems, of i] Cons.prems
    by simp
qed

lemma cosineLSH_valid:
  assumes "0 < hashNum"
  shows "\<exists>x. cosineLSH ops v hashNum = Some x \<and> v_bitNum x = hashNum \<and> valid_Vector x"
proof -
  have len: "int (length (randomProjection ops v hashNum)) = hashNum"
    using assms by simp
  have "cosineLSH ops v hashNum
        = Some (binarize_loop ops (randomProjection ops v hashNum) 0
                  \<lparr>v_data = replicate (nat (nWords hashNum 1)) 0, v_bitNum = hashNum\<rparr>)"
    unfolding cosineLSH_def binarize_def len using assms by (simp add: NewVector_def)
  with binarize_loop_valid [OF valid_Vector_zero [OF assms], of ops "randomProjection ops v hashNum" 0]
  show ?thesis by simp
qed

subsection \<open>\<open>Set\<close> returns on a well-formed array and keeps its shape\<close>
















subsection \<open>Extension and insertion\<close>

lemma valid_Array_BitNum_pos:
  assumes "valid_Array a"
  shows "0 < Array_BitNum a"
  using assms
  by (cases a)
     (auto simp: valid_Array_def Array_BitNum_def wordBits_def generalArray_BitNum_def
        smallBitsArray_BitNum_def wordArray_BitNum_def smallPowerOfTwoBitsArray_BitNum_def
        multipleOfWordBitsArray_BitNum_def)





subsection \<open>An extension whose number of words wraps around\<close>











section \<open>The norms and the rows of the index\<close>








section \<open>The result of a query\<close>

lemma spec_hamming_valid:
  assumes "valid_Array a" "valid_Vector x" "v_bitNum x = Array_BitNum a"
    and "0 \<le> i" "i < Array_Len a"
  shows "Array_HammingDistance a i x = Inr (spec_hamming a i x)"
proof -
  from Array_Get_HammingDistance [OF assms] obtain r where
    "Array_Get a i = Inr r"
    "Array_HammingDistance a i x = Inr (xor_popcount (v_data r) (v_data x))" by blast
  then show ?thesis by (simp add: spec_hamming_def)
qed






lemma spec_hamming_row:
  assumes "valid_Array a" "v_bitNum x = Array_BitNum a"
    and "case a of General g \<Rightarrow> True | _ \<Rightarrow> valid_Vector x"
    and "0 \<le> i" "i < Array_Len a"
  shows "Array_HammingDistance a i x = Inr (spec_hamming a i x)"
proof (cases a)
  case (General g)
  from assms General have "\<exists>r. generalArray_Get g i = Inr r \<and> v_bitNum r = ga_bitNum g
          \<and> int (length (v_data r)) = nWords (ga_bitNum g) 1"
    by (intro generalArray_Get_total)
       (auto simp: valid_Array_def wordBits_def Array_Len_def generalArray_Len_def)
  then obtain r where r: "generalArray_Get g i = Inr r" by blast
  then show ?thesis using General assms(2)
    by (simp add: spec_hamming_def Array_Get_def Array_HammingDistance_def
        generalArray_HammingDistance_def HammingDistance_def Array_BitNum_def generalArray_BitNum_def)
next
  case (SmallBits s)
  with assms(3) have "valid_Vector x" by simp
  from spec_hamming_valid [OF assms(1) this assms(2,4,5)] show ?thesis .
next
  case (WordArr w)
  with assms(3) have "valid_Vector x" by simp
  from spec_hamming_valid [OF assms(1) this assms(2,4,5)] show ?thesis .
next
  case (SmallPowerOfTwo p)
  with assms(3) have "valid_Vector x" by simp
  from spec_hamming_valid [OF assms(1) this assms(2,4,5)] show ?thesis .
next
  case (MultipleOfWord m)
  with assms(3) have "valid_Vector x" by simp
  from spec_hamming_valid [OF assms(1) this assms(2,4,5)] show ?thesis .
qed

lemma score_step_row:
  assumes "lshs e = Some a" "valid_Array a" "len_fs (norms e) = Array_Len a"
    and "v_bitNum x = Array_BitNum a" "case a of General g \<Rightarrow> True | _ \<Rightarrow> valid_Vector x"
    and "q_index s = e" "length (q_buf s) = length (fs_elems (norms e))"
    and "i < length (fs_elems (norms e))"
  shows "score_step ops (Some x) qnorm (int i) s
         = Inr (s\<lparr>q_buf := (q_buf s)[i := spec_rows ops e a x qnorm ! i]\<rparr>)"
proof -
  have i: "0 \<le> int i" "int i < Array_Len a" using assms(3,8) by (simp_all add: len_fs_def)
  have h: "hDist_of (Array_HammingDistance a (int i) x) = Inr (spec_hamming a (int i) x)"
    by (simp add: spec_hamming_row [OF assms(2,4,5) i] hDist_of_def)
  have row: "spec_rows ops e a x qnorm ! i
      = (int i + 1, spec_score ops (fs_elems (norms e) ! i) qnorm (spec_hamming a (int i) x)
                      (Array_BitNum a))"
    using assms(8) by (simp add: spec_rows_def)
  show ?thesis
    using assms(1,6,7,8)
    by (simp add: score_step_def h row spec_score_def len_fs_def Let_def)
qed

lemma score_loop_rows:
  assumes "lshs e = Some a" "valid_Array a" "len_fs (norms e) = Array_Len a"
    and "v_bitNum x = Array_BitNum a" "case a of General g \<Rightarrow> True | _ \<Rightarrow> valid_Vector x"
    and "q_index s = e" "length (q_buf s) = length (fs_elems (norms e))"
    and "i + k = length (fs_elems (norms e))"
  shows "score_loop ops (Some x) qnorm (int i) k s
         = Inr (s\<lparr>q_buf := take i (q_buf s) @ drop i (spec_rows ops e a x qnorm)\<rparr>)"
  using assms(6,7,8)
proof (induction k arbitrary: i s)
  case 0
  then show ?case by (simp add: spec_rows_def)
next
  case (Suc k)
  define rows where "rows = spec_rows ops e a x qnorm"
  have n: "length rows = length (fs_elems (norms e))" by (simp add: rows_def spec_rows_def)
  have i: "i < length (fs_elems (norms e))" using Suc.prems(3) by simp
  define s1 where "s1 = s\<lparr>q_buf := (q_buf s)[i := rows ! i]\<rparr>"
  have st: "score_step ops (Some x) qnorm (int i) s = Inr s1"
    unfolding s1_def rows_def
    by (rule score_step_row [OF assms(1-5) Suc.prems(1,2) i])
  have "score_loop ops (Some x) qnorm (int (Suc i)) k s1
        = Inr (s1\<lparr>q_buf := take (Suc i) (q_buf s1) @ drop (Suc i) rows\<rparr>)"
    unfolding rows_def using Suc.prems by (intro Suc.IH) (simp_all add: s1_def)
  moreover have "take (Suc i) (q_buf s1) = take i (q_buf s) @ [rows ! i]"
    using i Suc.prems(2) by (simp add: s1_def take_Suc_conv_app_nth)
  moreover have "drop i rows = rows ! i # drop (Suc i) rows"
    using i n by (simp add: Cons_nth_drop_Suc)
  ultimately show ?case
    by (simp add: st rows_def[symmetric] s1_def add.commute)
qed

lemma dist_loop_ret:
  assumes "i + k = length (q_ret s)" "length (q_ret s) \<le> length (q_buf s)"
  shows "dist_loop ops sq i k s
         = Inr (s\<lparr>q_ret := take i (q_ret s) @ map ((\<lambda>r. (fst r, sqrt32 ops (fadd ops sq (snd r))))) (take k (drop i (q_buf s)))\<rparr>)"
  using assms
proof (induction k arbitrary: i s)
  case 0
  then show ?case by simp
next
  case (Suc k)
  have i: "i < length (q_ret s)" "i < length (q_buf s)" using Suc.prems by simp_all
  define s1 where "s1 = s\<lparr>q_ret := (q_ret s)[i := (fst (q_buf s ! i), sqrt32 ops (fadd ops sq (snd (q_buf s ! i))))]\<rparr>"
  have st: "dist_step ops sq i s = Inr s1"
    using i by (simp add: dist_step_def s1_def)
  have "dist_loop ops sq (Suc i) k s1
        = Inr (s1\<lparr>q_ret := take (Suc i) (q_ret s1)
                 @ map ((\<lambda>r. (fst r, sqrt32 ops (fadd ops sq (snd r))))) (take k (drop (Suc i) (q_buf s1)))\<rparr>)"
    using Suc.prems by (intro Suc.IH) (simp_all add: s1_def)
  moreover have "take (Suc i) (q_ret s1) = take i (q_ret s) @ [(fst (q_buf s ! i), sqrt32 ops (fadd ops sq (snd (q_buf s ! i))))]"
    using i by (simp add: s1_def take_Suc_conv_app_nth)
  moreover have "take (Suc k) (drop i (q_buf s)) = q_buf s ! i # take k (drop (Suc i) (q_buf s))"
    using i by (simp add: Cons_nth_drop_Suc [symmetric])
  ultimately show ?case
    by (simp add: st s1_def)
qed

lemma neighborRowFromHash_spec:
  assumes "lshs e = Some a" "valid_Array a" "len_fs (norms e) = Array_Len a"
    and "v_bitNum x = Array_BitNum a" "case a of General g \<Rightarrow> True | _ \<Rightarrow> valid_Vector x"
    and "0 \<le> sz"
    and "\<And>xs. length (sort_by_dist ops xs) = length xs"
  shows "neighborRowFromHash ops e (Some x) qnorm sz
         = Inr \<lparr>q_index = e, q_buf = sort_by_dist ops (spec_rows ops e a x qnorm),
                q_ret = spec_query ops e a x qnorm sz\<rparr>"
proof -
  define n where "n = length (fs_elems (norms e))"
  define s0 :: "'a query_state" where
    "s0 = \<lparr>q_index = e, q_buf = replicate n (0, fzero ops), q_ret = []\<rparr>"
  define rows where "rows = spec_rows ops e a x qnorm"
  have nr: "length rows = n" by (simp add: rows_def spec_rows_def n_def)
  have "score_loop ops (Some x) qnorm (int 0) n s0
        = Inr (s0\<lparr>q_buf := take 0 (q_buf s0) @ drop 0 (spec_rows ops e a x qnorm)\<rparr>)"
    by (rule score_loop_rows [OF assms(1-5)]) (simp_all add: s0_def n_def)
  then have sl: "score_loop ops (Some x) qnorm 0 n s0 = Inr (s0\<lparr>q_buf := rows\<rparr>)"
    by (simp add: rows_def)
  define m where "m = nat (min sz (int n))"
  define s3 :: "'a query_state" where
    "s3 = \<lparr>q_index = e, q_buf = sort_by_dist ops rows, q_ret = replicate m (0, fzero ops)\<rparr>"
  have m: "m \<le> n" using assms(6) by (simp add: m_def)
  have "dist_loop ops (fmul ops qnorm qnorm) 0 m s3
        = Inr (s3\<lparr>q_ret := take 0 (q_ret s3)
                 @ map (\<lambda>r. (fst r, sqrt32 ops (fadd ops (fmul ops qnorm qnorm) (snd r))))
                     (take m (drop 0 (q_buf s3)))\<rparr>)"
    using m by (intro dist_loop_ret) (simp_all add: s3_def assms(7) nr)
  then have dl: "dist_loop ops (fmul ops qnorm qnorm) 0 m s3
        = Inr \<lparr>q_index = e, q_buf = sort_by_dist ops rows,
               q_ret = map (spec_result ops qnorm) (take m (sort_by_dist ops rows))\<rparr>"
    by (simp add: s3_def spec_result_def [abs_def])
  have mn: "\<not> minInt sz (int n) < 0" "nat (minInt sz (int n)) = m"
    using assms(6) by (simp_all add: minInt_def m_def min_def)
  show ?thesis
    unfolding neighborRowFromHash_def Let_def
    using sl dl mn
    by (simp add: s0_def n_def[symmetric] assms(7) nr s3_def spec_query_def rows_def[symmetric]
        len_fs_def m_def)
qed


lemma NeighborRowFromFV_spec:
  assumes "valid_index e" "lengths_agree e" "lshs e = Some a" "0 \<le> sz"
    and "\<And>xs. length (sort_by_dist ops xs) = length xs"
  shows "\<exists>y. cosineLSH ops v (Array_BitNum a) = Some y
           \<and> NeighborRowFromFV ops e v sz
               = Inr \<lparr>q_index = e,
                      q_buf = sort_by_dist ops (spec_rows ops e a y (l2Norm ops v)),
                      q_ret = spec_query ops e a y (l2Norm ops v) sz\<rparr>"
proof -
  from assms(1,2,3) have a: "valid_Array a" "len_fs (norms e) = Array_Len a"
    by (simp_all add: valid_index_def lengths_agree_def)
  from cosineLSH_valid [OF valid_Array_BitNum_pos [OF a(1)], of ops v]
  obtain y where y: "cosineLSH ops v (Array_BitNum a) = Some y" "v_bitNum y = Array_BitNum a"
    "valid_Vector y" by blast
  have c: "case a of General g \<Rightarrow> True | _ \<Rightarrow> valid_Vector y"
    using y(3) by (cases a) simp_all
  from neighborRowFromHash_spec [OF assms(3) a y(2) c assms(4,5)] y(1) assms(3)
  show ?thesis by (simp add: NeighborRowFromFV_def)
qed





section \<open>Queries leave the index as it is\<close>

lemma score_step_index:
  assumes "score_step ops x qnorm i s = Inr s'"
  shows "q_index s' = q_index s"
  using assms
  by (auto simp: score_step_def bindE_def Let_def split: option.splits sum.splits if_splits)

lemma score_loop_index:
  assumes "score_loop ops x qnorm i k s = Inr s'"
  shows "q_index s' = q_index s"
  using assms
proof (induction k arbitrary: i s)
  case 0
  then show ?case by simp
next
  case (Suc k)
  from Suc.prems obtain s1 where s1: "score_step ops x qnorm i s = Inr s1"
    "score_loop ops x qnorm (i + 1) k s1 = Inr s'"
    by (auto simp: bindE_def split: sum.splits)
  from Suc.IH [OF s1(2)] score_step_index [OF s1(1)] show ?case by simp
qed

lemma dist_step_index:
  assumes "dist_step ops sq i s = Inr s'"
  shows "q_index s' = q_index s"
  using assms by (auto simp: dist_step_def split: if_splits)

lemma dist_loop_index:
  assumes "dist_loop ops sq i k s = Inr s'"
  shows "q_index s' = q_index s"
  using assms
proof (induction k arbitrary: i s)
  case 0
  then show ?case by simp
next
  case (Suc k)
  from Suc.prems obtain s1 where s1: "dist_step ops sq i s = Inr s1"
    "dist_loop ops sq (Suc i) k s1 = Inr s'"
    by (auto simp: bindE_def split: sum.splits)
  from Suc.IH [OF s1(2)] dist_step_index [OF s1(1)] show ?case by simp
qed

lemma neighborRowFromHash_index:
  assumes "neighborRowFromHash ops e x qnorm sz = Inr s'"
  shows "q_index s' = e"
proof -
  define s0 :: "'a query_state" where "s0 = \<lparr>q_index = e,
                q_buf = replicate (length (fs_elems (norms e))) (0, fzero ops),
                q_ret = []\<rparr>"
  from assms obtain s1 where s1: "score_loop ops x qnorm 0 (length (q_buf s0)) s0 = Inr s1"
    by (auto simp: neighborRowFromHash_def Let_def bindE_def s0_def split: sum.splits)
  define s2 where "s2 = s1\<lparr>q_buf := sort_by_dist ops (q_buf s1)\<rparr>"
  define n where "n = minInt sz (int (length (q_buf s2)))"
  define s3 where "s3 = s2\<lparr>q_ret := replicate (nat n) (0, fzero ops)\<rparr>"
  from assms s1 have "dist_loop ops (fmul ops qnorm qnorm) 0 (length (q_ret s3)) s3 = Inr s'"
    by (auto simp: neighborRowFromHash_def Let_def s0_def[symmetric] s2_def[symmetric]
        n_def[symmetric] s3_def[symmetric] split: if_splits)
  from dist_loop_index [OF this] score_loop_index [OF s1] show ?thesis
    by (simp add: s3_def s2_def s0_def)
qed

text \<open>
  C9. A query that returns leaves the index as it was: the sketch array, with its words,
  its length and its width, and the norms are those of before the query, for the query by
  an ad-hoc feature vector, for the query by a stored row, and for the query by a sketch
  and a norm. On an index with a well-formed array and as many norms as rows and for a
  size that is not negative, the query by a feature vector returns.
\<close>

theorem query_leaves_index_unchanged:
  "(\<forall>s. NeighborRowFromFV ops e v sz = Inr s \<longrightarrow> q_index s = e)
   \<and> (\<forall>s. NeighborRowFromID ops e rid sz = Inr s \<longrightarrow> q_index s = e)
   \<and> (\<forall>s. neighborRowFromHash ops e x qnorm sz = Inr s \<longrightarrow> q_index s = e)
   \<and> (valid_index e \<and> lengths_agree e \<and> 0 \<le> sz
        \<and> (\<forall>xs. length (sort_by_dist ops xs) = length xs) \<longrightarrow>
        (\<exists>s. NeighborRowFromFV ops e v sz = Inr s \<and> q_index s = e))"
proof -
  have 4: "\<exists>s. NeighborRowFromFV ops e v sz = Inr s \<and> q_index s = e"
    if h: "valid_index e" "lengths_agree e" "0 \<le> sz"
      "\<forall>xs. length (sort_by_dist ops xs) = length xs"
  proof -
    from h(1) obtain a where a: "lshs e = Some a"
      by (auto simp: valid_index_def split: option.splits)
    from h(4) have srt: "\<And>xs. length (sort_by_dist ops xs) = length xs" by blast
    from NeighborRowFromFV_spec [OF h(1,2) a h(3) srt, of v] show ?thesis by auto
  qed
  have 123: "(\<forall>s. NeighborRowFromFV ops e v sz = Inr s \<longrightarrow> q_index s = e)
   \<and> (\<forall>s. NeighborRowFromID ops e rid sz = Inr s \<longrightarrow> q_index s = e)
   \<and> (\<forall>s. neighborRowFromHash ops e x qnorm sz = Inr s \<longrightarrow> q_index s = e)"
    by (auto simp: NeighborRowFromFV_def NeighborRowFromID_def
        dest: neighborRowFromHash_index split: option.splits sum.splits error.splits if_splits)
  from 123 4 show ?thesis by blast
qed

theorem query_leaves_index_unchanged_witness:
  "\<exists>s. NeighborRowFromFV int_ops
          (\<lparr>lshs = Some (SmallBits \<lparr>ga = \<lparr>ga_data = \<lparr>elems = [0x21], spare = []\<rparr>, ga_bitNum = 4, ga_len = 2\<rparr>\<rparr>),
         norms = \<lparr>fs_elems = [3, 5], fs_spare = []\<rparr>\<rparr> :: int EuclidLSH)
          [(''a'', 1), (''bc'', - 2)] 1 = Inr s
      \<and> q_index s = \<lparr>lshs = Some (SmallBits \<lparr>ga = \<lparr>ga_data = \<lparr>elems = [0x21], spare = []\<rparr>, ga_bitNum = 4, ga_len = 2\<rparr>\<rparr>),
         norms = \<lparr>fs_elems = [3, 5], fs_spare = []\<rparr>\<rparr>"
proof -
  let ?e = "\<lparr>lshs = Some (SmallBits \<lparr>ga = \<lparr>ga_data = \<lparr>elems = [0x21], spare = []\<rparr>, ga_bitNum = 4, ga_len = 2\<rparr>\<rparr>),
         norms = \<lparr>fs_elems = [3, 5], fs_spare = []\<rparr>\<rparr> :: int EuclidLSH"
  have v: "valid_index ?e"
    by (simp add: valid_index_def valid_Array_def wordBits_def nWords_def len_buf_def)
  have l: "lengths_agree ?e"
    by (simp add: lengths_agree_def len_fs_def Array_Len_def smallBitsArray_Len_def
        generalArray_Len_def)
  have s: "\<forall>xs. length (sort_by_dist int_ops xs) = length xs"
    by (simp add: int_ops_def)
  from query_leaves_index_unchanged [of int_ops ?e "[(''a'', 1), (''bc'', - 2)]" 1] v l s
  show ?thesis by simp
qed

end
